theory Spec2Isabelle
  imports
    Complex_Main
    "HOL-Library.Word"
    "HOL-Library.Sublist"
    "HOL-Library.Char_ord"
    "HOL-Library.List_Lexorder"
begin

section \<open>Wardriving (src/modules/wifi/wardriving.cpp): a shallow embedding\<close>

text \<open>
  The module logs WiFi access points together with a GPS position.  The embedding follows
  the C++ source function by function and keeps its names.  Class members of
  \<^verbatim>\<open>Wardriving\<close> and the globals \<^verbatim>\<open>returnToMenu\<close> and \<^verbatim>\<open>gpsConnected\<close> become
  fields of one record (the global \<^verbatim>\<open>wifiConnected\<close>, which the module sets and never
  reads, and everything written to the display are left out); the file system, the GPS
  library (TinyGPS++), the WiFi scanner and the keyboard are collaborators that are not
  part of the module, so what they deliver is an explicit input of every function that
  asks them.
\<close>

subsection \<open>Constants of wardriving.h and wardriving.cpp\<close>

definition CACHE_SIZE :: nat where
  "CACHE_SIZE = 1000"

definition BLOCK_SIZE :: nat where
  "BLOCK_SIZE = 6"

definition CACHE_CLEAN_THRESHOLD :: nat where
  "CACHE_CLEAN_THRESHOLD = 800"

definition CURRENT_YEAR :: nat where
  "CURRENT_YEAR = 2024"

definition FS_CHECK_INTERVAL :: "32 word" where
  "FS_CHECK_INTERVAL = 300000"

type_synonym byte = "8 word"

subsection \<open>Characters: the parts of ctype.h, strtol and printf that the module uses\<close>

text \<open>\<^verbatim>\<open>isxdigit\<close> in the C locale: \<^verbatim>\<open>0-9\<close>, \<^verbatim>\<open>A-F\<close>, \<^verbatim>\<open>a-f\<close>.\<close>

definition isxdigit :: "char \<Rightarrow> bool" where
  "isxdigit c =
     (let n = (of_char c :: nat)
      in (48 \<le> n \<and> n \<le> 57) \<or> (65 \<le> n \<and> n \<le> 70) \<or> (97 \<le> n \<and> n \<le> 102))"

text \<open>The value of a hexadecimal digit, as \<^verbatim>\<open>strtol\<close> reads it in base 16.\<close>

definition hexval :: "char \<Rightarrow> nat" where
  "hexval c =
     (let n = (of_char c :: nat)
      in if 48 \<le> n \<and> n \<le> 57 then n - 48
         else if 65 \<le> n \<and> n \<le> 70 then n - 55
         else n - 87)"

text \<open>
  \<^verbatim>\<open>strtol(hexPair, NULL, 16)\<close>: the digits are accumulated from the left and the
  conversion stops at the first character that is no hexadecimal digit.  The callers
  pass a buffer of two characters of the address, so leading white space, a sign and
  the optional \<^verbatim>\<open>0x\<close> prefix, which \<^verbatim>\<open>strtol\<close> would also accept, are left out.
\<close>

definition strtol16 :: "string \<Rightarrow> nat" where
  "strtol16 cs = foldl (\<lambda>acc c. acc * 16 + hexval c) 0 (takeWhile isxdigit cs)"

text \<open>The upper-case hexadecimal digit that \<^verbatim>\<open>%X\<close> prints for a value below 16.\<close>

definition hexdigit_upper :: "nat \<Rightarrow> char" where
  "hexdigit_upper d = (if d < 10 then char_of (48 + d) else char_of (55 + d))"

text \<open>\<^verbatim>\<open>%02X\<close> of a \<^verbatim>\<open>uint8_t\<close>: always two digits, since the value is below 256.\<close>

definition fmt_02X :: "byte \<Rightarrow> string" where
  "fmt_02X b = [hexdigit_upper (unat b div 16), hexdigit_upper (unat b mod 16)]"

text \<open>
  The decimal digits of a number, and \<^verbatim>\<open>%02d\<close> / \<^verbatim>\<open>%04d\<close>: a minimum field width
  with zero padding.  A value with more digits is printed in full.  The values printed
  by the module are unsigned (\<^verbatim>\<open>uint16_t\<close>, \<^verbatim>\<open>uint8_t\<close>).
\<close>

fun decimal :: "nat \<Rightarrow> string" where
  "decimal n =
     (if n < 10 then [char_of (48 + n)]
      else decimal (n div 10) @ [char_of (48 + n mod 10)])"

definition fmt_0d :: "nat \<Rightarrow> nat \<Rightarrow> string" where
  "fmt_0d w n = (let ds = decimal n in replicate (w - length ds) (CHR ''0'') @ ds)"

text \<open>
  Upper-case normalisation of an address, the reference for the round trip: \<^verbatim>\<open>toupper\<close>
  of the C locale applied to every character.
\<close>

definition toupper :: "char \<Rightarrow> char" where
  "toupper c =
     (let n = (of_char c :: nat) in if 97 \<le> n \<and> n \<le> 122 then char_of (n - 32) else c)"

definition uppercase :: "string \<Rightarrow> string" where
  "uppercase s = map toupper s"

subsection \<open>MAC codec\<close>

text \<open>
  \<^verbatim>\<open>isValidMacString\<close>: length 17, a colon at every index with \<^verbatim>\<open>i % 3 == 2\<close>, a
  hexadecimal digit elsewhere.  The loop returns false at the first violation, which is
  the conjunction over all seventeen indices.
\<close>

definition isValidMacString :: "string \<Rightarrow> bool" where
  "isValidMacString mac =
     (length mac = 17 \<and>
      list_all (\<lambda>i. if i mod 3 = 2 then mac ! i = CHR '':'' else isxdigit (mac ! i)) [0..<17])"

text \<open>
  The loop of \<^verbatim>\<open>macStringToBytes\<close>: \<^verbatim>\<open>i\<close> advances by three while \<^verbatim>\<open>i < mac.length()\<close>;
  each round converts \<^verbatim>\<open>mac[i], mac[i+1]\<close> with \<^verbatim>\<open>strtol\<close> and stores the result in a
  \<^verbatim>\<open>uint8_t\<close>.  Reading one past the end of an Arduino \<^verbatim>\<open>String\<close> yields the NUL
  character, where \<^verbatim>\<open>strtol\<close> stops.
\<close>

fun parse_groups :: "string \<Rightarrow> byte list" where
  "parse_groups (a # b # _ # rest) = word_of_nat (strtol16 [a, b]) # parse_groups rest"
| "parse_groups [a, b] = [word_of_nat (strtol16 [a, b])]"
| "parse_groups [a] = [word_of_nat (strtol16 [a])]"
| "parse_groups [] = []"

definition macStringToBytes :: "string \<Rightarrow> byte list option" where
  "macStringToBytes mac = (if \<not> isValidMacString mac then None else Some (parse_groups mac))"

text \<open>
  \<^verbatim>\<open>bytesToMacString\<close> reads \<^verbatim>\<open>bytes[0..5]\<close>.  Every caller owns an array of
  \<^verbatim>\<open>BLOCK_SIZE\<close> bytes; for a shorter list, where the C code would read foreign
  memory, the model returns the empty string.
\<close>

fun bytesToMacString :: "byte list \<Rightarrow> string" where
  "bytesToMacString (b0 # b1 # b2 # b3 # b4 # b5 # _) =
     fmt_02X b0 @ '':'' @ fmt_02X b1 @ '':'' @ fmt_02X b2 @ '':'' @
     fmt_02X b3 @ '':'' @ fmt_02X b4 @ '':'' @ fmt_02X b5"
| "bytesToMacString _ = []"


subsection \<open>Collaborators: GPS library, WiFi scanner, storage\<close>

text \<open>
  The \<^verbatim>\<open>TinyGPSPlus\<close> object as the module reads it after \<^verbatim>\<open>gps.encode\<close> has consumed
  the bytes that were available.  The year is a \<^verbatim>\<open>uint16_t\<close>, the other date and time
  fields are \<^verbatim>\<open>uint8_t\<close>; they are only printed and compared, so they are natural
  numbers here.  The type \<^verbatim>\<open>double\<close> is the type parameter \<open>'d\<close>: nothing is assumed
  about its values.
\<close>

record 'd gps_data =
  location_isUpdated :: bool
  location_lat :: 'd
  location_lng :: 'd
  date_isUpdated :: bool
  time_isUpdated :: bool
  date_year :: nat
  date_month :: nat
  date_day :: nat
  time_hour :: nat
  time_minute :: nat
  time_second :: nat
  altitude_meters :: 'd
  hdop_hdop :: 'd

datatype wifi_auth_mode_t =
  WIFI_AUTH_OPEN | WIFI_AUTH_WEP | WIFI_AUTH_WPA_PSK | WIFI_AUTH_WPA2_PSK |
  WIFI_AUTH_WPA_WPA2_PSK | WIFI_AUTH_WPA2_ENTERPRISE | WIFI_AUTH_WPA3_PSK |
  WIFI_AUTH_WPA2_WPA3_PSK | WIFI_AUTH_WAPI_PSK | WIFI_AUTH_OTHER

text \<open>Entry \<^verbatim>\<open>i\<close> of a finished scan: \<^verbatim>\<open>WiFi.BSSIDstr(i)\<close>, \<^verbatim>\<open>WiFi.SSID(i)\<close>, ...\<close>

record network =
  BSSIDstr :: string
  SSID :: string
  channel :: int
  RSSI :: int
  encryptionType :: wifi_auth_mode_t

text \<open>
  How the storage answers during one call of a function of the module: whether
  \<^verbatim>\<open>getFsStorage\<close> finds a file system, whether \<^verbatim>\<open>mkdir\<close> and \<^verbatim>\<open>open\<close> succeed, how
  many bytes \<^verbatim>\<open>File::write\<close> accepts, and which \<^verbatim>\<open>File::read\<close> of a block, counted
  from 0, comes back with fewer than \<^verbatim>\<open>BLOCK_SIZE\<close> bytes (None: every read is
  complete).  The module tests each of these results, so each is an input.
\<close>

record fs_call =
  getFsStorage_ok :: bool
  mkdir_ok :: bool
  open_ok :: bool
  write_len :: nat
  short_read :: "nat option"

text \<open>
  The storage while one scan entry is handled: the answers during \<^verbatim>\<open>isMacInIndex\<close>,
  those during \<^verbatim>\<open>addMacToIndex\<close>, and whether \<^verbatim>\<open>file.print(buffer)\<close> writes the row.
\<close>

record entry_env =
  lookup_call :: fs_call
  append_call :: fs_call
  print_ok :: bool

text \<open>
  A line of a log file.  A data row is kept as the values that \<^verbatim>\<open>snprintf\<close> formats
  (address, network name, security mode, date and time, channel, frequency, signal
  strength, latitude, longitude, altitude, HDOP), not as the formatted text.
\<close>

datatype 'd log_line =
  Banner
| ColumnHeader
| DataRow string string string string int int int 'd 'd 'd 'd

subsection \<open>The state\<close>

text \<open>
  The members of class \<^verbatim>\<open>Wardriving\<close> (wardriving.h), the globals \<^verbatim>\<open>returnToMenu\<close> and
  \<^verbatim>\<open>gpsConnected\<close>, and the part of the file system the module touches: whether the
  directory \<^verbatim>\<open>/BruceWardriving\<close> exists, the bytes of \<^verbatim>\<open>mac_index.bin\<close> (None: no such
  file) and the log files by name.  \<^verbatim>\<open>std::set<String>\<close> iterates in increasing order
  of \<^verbatim>\<open>String::operator<\<close> (\<^verbatim>\<open>strcmp\<close>, bytes compared unsigned), so the cache is the
  strictly increasing list of its elements and \<^verbatim>\<open>begin()\<close> is its head.
\<close>

record 'd wardriving =
  date_time_updated :: bool
  initial_position_set :: bool
  cur_lat :: 'd
  cur_lng :: 'd
  distance :: 'd
  filename :: string
  macAddressCache :: "string list"
  wifiNetworkCount :: int
  indexFileInitialized :: bool
  returnToMenu :: bool
  gpsConnected :: bool
  fs_dir :: bool
  fs_index :: "byte list option"
  fs_logs :: "string \<rightharpoonup> 'd log_line list"

text \<open>
  A freshly constructed object on a given file system.  \<^verbatim>\<open>cur_lat\<close> and \<^verbatim>\<open>cur_lng\<close>
  have no initialiser in the class; they are not read before \<^verbatim>\<open>set_position\<close> has
  written them.
\<close>

definition initial ::
  "bool \<Rightarrow> byte list option \<Rightarrow> (string \<rightharpoonup> 'd log_line list) \<Rightarrow> ('d::zero) wardriving" where
  "initial dir idx logs =
     \<lparr>date_time_updated = False, initial_position_set = False, cur_lat = 0, cur_lng = 0,
      distance = 0, filename = [], macAddressCache = [], wifiNetworkCount = 0,
      indexFileInitialized = False, returnToMenu = False, gpsConnected = False,
      fs_dir = dir, fs_index = idx, fs_logs = logs\<rparr>"

subsection \<open>Storage health and the index file\<close>

definition checkFileSystem :: "fs_call \<Rightarrow> 'd wardriving \<Rightarrow> bool \<times> 'd wardriving" where
  "checkFileSystem f s =
     (if \<not> getFsStorage_ok f then (False, s)
      else if \<not> fs_dir s then
        (if \<not> mkdir_ok f then (False, s) else (True, s\<lparr>fs_dir := True\<rparr>))
      else (True, s))"

definition initializeIndex :: "fs_call \<Rightarrow> 'd wardriving \<Rightarrow> bool \<times> 'd wardriving" where
  "initializeIndex f s =
     (if indexFileInitialized s then (True, s)
      else case checkFileSystem f s of
        (False, s1) \<Rightarrow> (False, s1)
      | (True, s1) \<Rightarrow>
          if \<not> getFsStorage_ok f then (False, s1)
          else if fs_index s1 = None then
            (if \<not> open_ok f then (False, s1)
             else (True, s1\<lparr>fs_index := Some [], indexFileInitialized := True\<rparr>))
          else (True, s1\<lparr>indexFileInitialized := True\<rparr>))"

text \<open>
  The read loop of \<^verbatim>\<open>isMacInIndex\<close>: while at least \<^verbatim>\<open>BLOCK_SIZE\<close> bytes remain, read a
  block; leave the loop when the read comes back short; compare the block with the
  searched bytes and leave the loop at the first match.  The first argument tells which
  of the reads still to come is short.
\<close>

function scan_index :: "nat option \<Rightarrow> byte list \<Rightarrow> byte list \<Rightarrow> bool" where
  "scan_index short searchBytes bs =
     (if length bs \<ge> BLOCK_SIZE then
        (if short = Some 0 then False
         else if take BLOCK_SIZE bs = searchBytes then True
         else scan_index (map_option (\<lambda>k. k - 1) short) searchBytes (drop BLOCK_SIZE bs))
      else False)"
  by pat_completeness auto
termination
  by (relation "measure (\<lambda>(short, k, bs). length bs)") (auto simp: BLOCK_SIZE_def)

definition isMacInCache :: "string \<Rightarrow> 'd wardriving \<Rightarrow> bool" where
  "isMacInCache mac s = (mac \<in> set (macAddressCache s))"

text \<open>
  The first line of \<^verbatim>\<open>isMacInIndex\<close> and of \<^verbatim>\<open>addMacToIndex\<close>:
  \<^verbatim>\<open>if (!indexFileInitialized && !initializeIndex()) return false;\<close>
\<close>

definition index_ready :: "fs_call \<Rightarrow> 'd wardriving \<Rightarrow> bool \<times> 'd wardriving" where
  "index_ready f s = (if \<not> indexFileInitialized s then initializeIndex f s else (True, s))"

definition isMacInIndex :: "fs_call \<Rightarrow> string \<Rightarrow> 'd wardriving \<Rightarrow> bool \<times> 'd wardriving" where
  "isMacInIndex f mac s =
     (let (ready, s1) = index_ready f s
      in if \<not> ready then (False, s1)
         else if \<not> getFsStorage_ok f then (False, s1)
         else case (if open_ok f then fs_index s1 else None) of
           None \<Rightarrow> (False, s1)
         | Some bs \<Rightarrow>
             (case macStringToBytes mac of
                None \<Rightarrow> (False, s1)
              | Some searchBytes \<Rightarrow> (scan_index (short_read f) searchBytes bs, s1)))"

text \<open>\<^verbatim>\<open>std::set::insert\<close>: no effect when the element is present.\<close>

fun set_insert :: "string \<Rightarrow> string list \<Rightarrow> string list" where
  "set_insert x [] = [x]"
| "set_insert x (y # ys) =
     (if x < y then x # y # ys else if x = y then y # ys else y # set_insert x ys)"

text \<open>The inner loop of \<^verbatim>\<open>maintainCache\<close>: erase \<^verbatim>\<open>begin()\<close> while the size exceeds the target.\<close>

fun erase_until :: "nat \<Rightarrow> string list \<Rightarrow> string list" where
  "erase_until targetSize [] = []"
| "erase_until targetSize (x # xs) =
     (if length (x # xs) > targetSize then erase_until targetSize xs else x # xs)"

definition maintainCache :: "'d wardriving \<Rightarrow> 'd wardriving" where
  "maintainCache s =
     (if length (macAddressCache s) > CACHE_CLEAN_THRESHOLD
      then s\<lparr>macAddressCache := erase_until (CACHE_SIZE div 2) (macAddressCache s)\<rparr>
      else s)"

definition addMacToCache :: "string \<Rightarrow> 'd wardriving \<Rightarrow> 'd wardriving" where
  "addMacToCache mac s = maintainCache (s\<lparr>macAddressCache := set_insert mac (macAddressCache s)\<rparr>)"

text \<open>
  \<^verbatim>\<open>addMacToIndex\<close>: the file is opened for appending (which creates a missing file)
  before the address is converted; \<^verbatim>\<open>write\<close> may accept fewer than \<^verbatim>\<open>BLOCK_SIZE\<close>
  bytes, which the function reports as failure.
\<close>

definition addMacToIndex :: "fs_call \<Rightarrow> string \<Rightarrow> 'd wardriving \<Rightarrow> bool \<times> 'd wardriving" where
  "addMacToIndex f mac s =
     (let (ready, s1) = index_ready f s
      in if \<not> ready then (False, s1)
         else if \<not> getFsStorage_ok f then (False, s1)
         else if \<not> open_ok f then (False, s1)
         else
           let old = (case fs_index s1 of None \<Rightarrow> [] | Some bs \<Rightarrow> bs);
               s2 = s1\<lparr>fs_index := Some old\<rparr>
           in case macStringToBytes mac of
                None \<Rightarrow> (False, s2)
              | Some bytes \<Rightarrow>
                  (let written = min (write_len f) BLOCK_SIZE
                   in (written = BLOCK_SIZE, s2\<lparr>fs_index := Some (old @ take written bytes)\<rparr>)))"

subsection \<open>Position and file name\<close>

text \<open>
  The two operations on doubles that \<^verbatim>\<open>set_position\<close> uses: the addition of doubles
  (\<^verbatim>\<open>+=\<close>, which rounds) and \<^verbatim>\<open>gps.distanceBetween\<close> of TinyGPS++.  Both are parameters
  and no law is assumed of either, so what is proved holds for the rounded addition.
\<close>

record 'd double_ops =
  dbl_add :: "'d \<Rightarrow> 'd \<Rightarrow> 'd"
  distanceBetween :: "'d \<Rightarrow> 'd \<Rightarrow> 'd \<Rightarrow> 'd \<Rightarrow> 'd"


definition set_position ::
  "'d double_ops \<Rightarrow> 'd gps_data \<Rightarrow> 'd wardriving \<Rightarrow> 'd wardriving" where
  "set_position ops g s =
     (let lat = location_lat g; lng = location_lng g;
          s1 = (if initial_position_set s
                then s\<lparr>distance :=
                       dbl_add ops (distance s) (distanceBetween ops (cur_lat s) (cur_lng s) lat lng)\<rparr>
                else s\<lparr>initial_position_set := True\<rparr>)
      in s1\<lparr>cur_lat := lat, cur_lng := lng\<rparr>)"

text \<open>
  The \<^verbatim>\<open>sprintf\<close> of \<^verbatim>\<open>create_filename\<close>: six fields, each \<^verbatim>\<open>%02d\<close>.  The buffer
  has 20 characters, which is enough for the values TinyGPS++ delivers (a year of at
  most five digits, month, minute and second below 100, day and hour below 256).
\<close>

definition timestamp :: "'d gps_data \<Rightarrow> string" where
  "timestamp g =
     fmt_0d 2 (date_year g) @ fmt_0d 2 (date_month g) @ fmt_0d 2 (date_day g) @ ''_'' @
     fmt_0d 2 (time_hour g) @ fmt_0d 2 (time_minute g) @ fmt_0d 2 (time_second g)"

definition create_filename :: "'d gps_data \<Rightarrow> 'd wardriving \<Rightarrow> 'd wardriving" where
  "create_filename g s = s\<lparr>filename := timestamp g @ ''_wardriving.csv''\<rparr>"

definition dump_gps_data :: "'d gps_data \<Rightarrow> 'd wardriving \<Rightarrow> 'd wardriving" where
  "dump_gps_data g s =
     (if \<not> date_time_updated s \<and> (\<not> date_isUpdated g \<or> \<not> time_isUpdated g) then s
      else s\<lparr>date_time_updated := True\<rparr>)"

subsection \<open>Writing the log\<close>

fun auth_mode_to_string :: "wifi_auth_mode_t \<Rightarrow> string" where
  "auth_mode_to_string WIFI_AUTH_OPEN = ''OPEN''"
| "auth_mode_to_string WIFI_AUTH_WEP = ''WEP''"
| "auth_mode_to_string WIFI_AUTH_WPA_PSK = ''WPA_PSK''"
| "auth_mode_to_string WIFI_AUTH_WPA2_PSK = ''WPA2_PSK''"
| "auth_mode_to_string WIFI_AUTH_WPA_WPA2_PSK = ''WPA_WPA2_PSK''"
| "auth_mode_to_string WIFI_AUTH_WPA2_ENTERPRISE = ''WPA2_ENTERPRISE''"
| "auth_mode_to_string WIFI_AUTH_WPA3_PSK = ''WPA3_PSK''"
| "auth_mode_to_string WIFI_AUTH_WPA2_WPA3_PSK = ''WPA2_WPA3_PSK''"
| "auth_mode_to_string WIFI_AUTH_WAPI_PSK = ''WAPI_PSK''"
| "auth_mode_to_string WIFI_AUTH_OTHER = ''UNKNOWN''"

text \<open>\<^verbatim>\<open>snprintf\<close> into \<^verbatim>\<open>datetime[20]\<close> keeps at most 19 characters.\<close>

definition datetime :: "'d gps_data \<Rightarrow> string" where
  "datetime g =
     take 19
       (fmt_0d 4 (date_year g) @ ''-'' @ fmt_0d 2 (date_month g) @ ''-'' @ fmt_0d 2 (date_day g) @
        '' '' @ fmt_0d 2 (time_hour g) @ '':'' @ fmt_0d 2 (time_minute g) @ '':'' @
        fmt_0d 2 (time_second g))"

definition data_row :: "'d gps_data \<Rightarrow> network \<Rightarrow> 'd log_line" where
  "data_row g n =
     DataRow (BSSIDstr n) (SSID n) (auth_mode_to_string (encryptionType n)) (datetime g)
       (channel n) (if channel n \<noteq> 14 then 2407 + channel n * 5 else 2484) (RSSI n)
       (location_lat g) (location_lng g) (altitude_meters g) (hdop_hdop g)"

text \<open>
  The body of the \<^verbatim>\<open>for\<close> loop of \<^verbatim>\<open>append_to_file\<close> for one scan entry.  The log file
  was opened before the loop under the name \<^verbatim>\<open>filename\<close>, which the body does not
  change.
\<close>

definition append_entry :: "'d gps_data \<Rightarrow> 'd wardriving \<Rightarrow> network \<times> entry_env \<Rightarrow> 'd wardriving" where
  "append_entry g s ne =
     (let n = fst ne; e = snd ne; macAddress = BSSIDstr n
      in if \<not> isValidMacString macAddress then s
         else if length (SSID n) = 0 then s
         else if isMacInCache macAddress s then s
         else case isMacInIndex (lookup_call e) macAddress s of
           (True, s1) \<Rightarrow> s1
         | (False, s1) \<Rightarrow>
             (case addMacToIndex (append_call e) macAddress (addMacToCache macAddress s1) of
                (False, s2) \<Rightarrow> s2
              | (True, s2) \<Rightarrow>
                  if print_ok e
                  then s2\<lparr>fs_logs := (fs_logs s2)(filename s2 \<mapsto>
                              (case fs_logs s2 (filename s2) of None \<Rightarrow> [] | Some ls \<Rightarrow> ls) @
                              [data_row g n]),
                          wifiNetworkCount := wifiNetworkCount s2 + 1\<rparr>
                  else s2))"

text \<open>
  \<^verbatim>\<open>append_to_file\<close>.  The scan entries \<^verbatim>\<open>0 .. network_amount - 1\<close> are the first
  \<^verbatim>\<open>network_amount\<close> elements of the list, each with the storage answers met while it is
  handled.  A new file is opened with \<^verbatim>\<open>FILE_WRITE\<close> and receives the two header lines.
\<close>

definition append_to_file ::
  "fs_call \<Rightarrow> 'd gps_data \<Rightarrow> int \<Rightarrow> (network \<times> entry_env) list \<Rightarrow> 'd wardriving \<Rightarrow> 'd wardriving" where
  "append_to_file f g network_amount nets s =
     (case checkFileSystem f s of
        (False, s1) \<Rightarrow> s1\<lparr>returnToMenu := True\<rparr>
      | (True, s1) \<Rightarrow>
          if \<not> getFsStorage_ok f then s1\<lparr>returnToMenu := True\<rparr>
          else
            let s2 = (if filename s1 = [] then create_filename g s1 else s1);
                is_new_file = (fs_logs s2 (filename s2) = None)
            in if \<not> open_ok f then s2\<lparr>returnToMenu := True\<rparr>
               else
                 let s3 = (if is_new_file
                           then s2\<lparr>fs_logs := (fs_logs s2)(filename s2 \<mapsto> [Banner, ColumnHeader])\<rparr>
                           else s2)
                 in foldl (append_entry g) s3 (take (nat network_amount) nets))"

definition scan_networks ::
  "fs_call \<Rightarrow> 'd gps_data \<Rightarrow> int \<Rightarrow> (network \<times> entry_env) list \<Rightarrow> 'd wardriving \<Rightarrow> 'd wardriving" where
  "scan_networks f g network_amount nets s =
     (if network_amount = 0 then s else append_to_file f g network_amount nets s)"

subsection \<open>Life cycle\<close>

text \<open>
  \<^verbatim>\<open>end()\<close>: opening and closing the two files for reading leaves their contents as
  they are; what remains is the reset of the flags.
\<close>

definition wardriving_end :: "'d wardriving \<Rightarrow> 'd wardriving" where
  "wardriving_end s = s\<lparr>indexFileInitialized := False, returnToMenu := True, gpsConnected := False\<rparr>"

text \<open>
  The waiting loop of \<^verbatim>\<open>begin_gps\<close>.  Round \<^verbatim>\<open>count\<close> asks \<^verbatim>\<open>GPSserial.available()\<close>
  and, when nothing is available, \<^verbatim>\<open>checkEscPress()\<close>; the two functions give the
  answers of round \<^verbatim>\<open>count\<close>.  The loop has no other exit, so it need not return:
  not returning is the value None.
\<close>

partial_function (option) begin_gps_wait :: "(nat \<Rightarrow> bool) \<Rightarrow> (nat \<Rightarrow> bool) \<Rightarrow> nat \<Rightarrow> bool option" where
  "begin_gps_wait available esc count =
     (if available count then Some True
      else if esc count then Some False
      else begin_gps_wait available esc (count + 1))"

definition begin_gps :: "(nat \<Rightarrow> bool) \<Rightarrow> (nat \<Rightarrow> bool) \<Rightarrow> 'd wardriving \<Rightarrow> (bool \<times> 'd wardriving) option" where
  "begin_gps available esc s =
     (case begin_gps_wait available esc 0 of
        None \<Rightarrow> None
      | Some False \<Rightarrow> Some (False, wardriving_end s)
      | Some True \<Rightarrow> Some (True, s\<lparr>gpsConnected := True\<rparr>))"

text \<open>
  One round of the \<^verbatim>\<open>while(1)\<close> of \<^verbatim>\<open>loop\<close> and what the collaborators deliver in it:
  the key at the top, \<^verbatim>\<open>millis()\<close>, the storage during the periodic check, whether
  serial data is available and the GPS object after encoding it, the result of the
  WiFi scan, the storage while the log file is opened, and whether the key is pressed
  during the wait that ends the round.
\<close>

record 'd tick =
  esc_top :: bool
  millis_now :: "32 word"
  check_call :: fs_call
  gps_available :: bool
  gps :: "'d gps_data"
  scan_amount :: int
  scan_nets :: "(network \<times> entry_env) list"
  file_call :: fs_call
  esc_wait :: bool

text \<open>The locals of \<^verbatim>\<open>loop\<close>.  \<^verbatim>\<open>count\<close> never exceeds 6, so it is a natural number.\<close>

record loop_vars =
  count :: nat
  lastFsCheck :: "32 word"

datatype exit_reason = Escape | GpsNotFound

datatype 'd step = Return exit_reason "'d wardriving" | Continue loop_vars "'d wardriving"

text \<open>
  The wait at the end of a round.  No byte is encoded between the body and the wait, and
  the body has consumed the location (\<^verbatim>\<open>lat()\<close> clears the flag) or found it not
  updated, so \<^verbatim>\<open>gps.location.isUpdated()\<close> is false throughout and the wait ends by the
  key, by \<^verbatim>\<open>returnToMenu\<close> or after \<^verbatim>\<open>MAX_WAIT\<close>.
\<close>

definition wait :: "'d tick \<Rightarrow> loop_vars \<Rightarrow> 'd wardriving \<Rightarrow> 'd step" where
  "wait t v s = (if esc_wait t \<or> returnToMenu s then Return Escape (wardriving_end s) else Continue v s)"

text \<open>The periodic file system check at the top of a round.\<close>

definition fs_check :: "'d tick \<Rightarrow> loop_vars \<Rightarrow> 'd wardriving \<Rightarrow> loop_vars \<times> 'd wardriving" where
  "fs_check t v s =
     (if millis_now t - lastFsCheck v \<ge> FS_CHECK_INTERVAL
      then (v\<lparr>lastFsCheck := millis_now t\<rparr>,
            case checkFileSystem (check_call t) s of
              (True, s') \<Rightarrow> snd (initializeIndex (check_call t) s')
            | (False, s') \<Rightarrow> s')
      else (v, s))"

text \<open>The branch \<^verbatim>\<open>GPSserial.available() > 0\<close>, after the bytes have been encoded.\<close>

definition on_gps_data ::
  "'d double_ops \<Rightarrow> 'd tick \<Rightarrow> 'd wardriving \<Rightarrow> 'd wardriving" where
  "on_gps_data ops t s =
     (if location_isUpdated (gps t)
      then scan_networks (file_call t) (gps t) (scan_amount t) (scan_nets t)
             (set_position ops (gps t) s)
      else
        let s' = dump_gps_data (gps t) s
        in if filename s' = [] \<and> date_year (gps t) \<ge> CURRENT_YEAR \<and>
              date_year (gps t) < CURRENT_YEAR + 5
           then create_filename (gps t) s' else s')"

definition loop_iter ::
  "'d double_ops \<Rightarrow> 'd tick \<Rightarrow> loop_vars \<Rightarrow> 'd wardriving \<Rightarrow> 'd step" where
  "loop_iter ops t v s =
     (if esc_top t \<or> returnToMenu s then Return Escape (wardriving_end s)
      else
        let (v1, s1) = fs_check t v s
        in if gps_available t then wait t (v1\<lparr>count := 0\<rparr>) (on_gps_data ops t s1)
           else if count v1 > 5 then Return GpsNotFound (wardriving_end s1)
           else wait t (v1\<lparr>count := count v1 + 1\<rparr>) s1)"

text \<open>The rounds of \<^verbatim>\<open>loop\<close> over the inputs of finitely many rounds.\<close>

fun run_loop ::
  "'d double_ops \<Rightarrow> 'd tick list \<Rightarrow> loop_vars \<Rightarrow> 'd wardriving \<Rightarrow> 'd step" where
  "run_loop ops [] v s = Continue v s"
| "run_loop ops (t # ts) v s =
     (case loop_iter ops t v s of
        Return r s' \<Rightarrow> Return r s'
      | Continue v' s' \<Rightarrow> run_loop ops ts v' s')"

definition loop ::
  "'d double_ops \<Rightarrow> 'd tick list \<Rightarrow> 'd wardriving \<Rightarrow> 'd step" where
  "loop ops ts s =
     run_loop ops ts \<lparr>count = 0, lastFsCheck = 0\<rparr> (s\<lparr>returnToMenu := False\<rparr>)"

definition state_of :: "'d step \<Rightarrow> 'd wardriving" where
  "state_of st = (case st of Return r s \<Rightarrow> s | Continue v s \<Rightarrow> s)"

text \<open>
  \<^verbatim>\<open>setup\<close>: the session either ends before \<^verbatim>\<open>loop\<close> is entered or runs the loop.
\<close>

datatype 'd session = NotStarted "'d wardriving" | Started "'d step"

definition wardriving_setup ::
  "'d double_ops \<Rightarrow> (nat \<Rightarrow> bool) \<Rightarrow> (nat \<Rightarrow> bool) \<Rightarrow> fs_call \<Rightarrow>
   'd tick list \<Rightarrow> 'd wardriving \<Rightarrow> 'd session option" where
  "wardriving_setup ops available esc f ts s =
     (case begin_gps available esc s of
        None \<Rightarrow> None
      | Some (False, s1) \<Rightarrow> Some (NotStarted s1)
      | Some (True, s1) \<Rightarrow>
          (case initializeIndex f s1 of
             (False, s2) \<Rightarrow> Some (NotStarted (wardriving_end s2))
           | (True, s2) \<Rightarrow> Some (Started (loop ops ts s2))))"

subsection \<open>Notions used in the statements\<close>

text \<open>
  \<^verbatim>\<open>loop\<close> calls \<^verbatim>\<open>set_position\<close> once for every updated location; \<open>track\<close> is the
  effect of these calls for a sequence of fixes.  \<open>legs\<close> are the distances between
  consecutive coordinates, in the order of the fixes, and \<open>sum_in_order\<close> adds doubles
  to a starting value one after the other with the addition of doubles: the sum as a
  program computes it from left to right, each partial sum rounded.
\<close>

definition coords :: "'d gps_data \<Rightarrow> 'd \<times> 'd" where
  "coords g = (location_lat g, location_lng g)"

definition track :: "'d double_ops \<Rightarrow> 'd gps_data list \<Rightarrow> 'd wardriving \<Rightarrow> 'd wardriving" where
  "track ops fixes s = foldl (\<lambda>s g. set_position ops g s) s fixes"

fun legs :: "'d double_ops \<Rightarrow> ('d \<times> 'd) list \<Rightarrow> 'd list" where
  "legs ops (a # b # rest) = distanceBetween ops (fst a) (snd a) (fst b) (snd b) # legs ops (b # rest)"
| "legs ops _ = []"

definition sum_in_order :: "'d double_ops \<Rightarrow> 'd \<Rightarrow> 'd list \<Rightarrow> 'd" where
  "sum_in_order ops start xs = foldl (dbl_add ops) start xs"

text \<open>The cache after \<^verbatim>\<open>addMacToCache\<close> has been called for each address of a list in turn.\<close>

definition cache_after :: "string list \<Rightarrow> 'd wardriving \<Rightarrow> 'd wardriving" where
  "cache_after macs s = foldl (\<lambda>s mac. addMacToCache mac s) s macs"

subsection \<open>Example inputs\<close>

text \<open>
  The examples take real numbers for the doubles.  \<open>plain_ops\<close> adds them and gives
  every distance as 0; \<open>grid_ops\<close> measures along the axes; \<open>odd_ops\<close> has an addition
  that is neither associative nor commutative.
\<close>

definition plain_ops :: "real double_ops" where
  "plain_ops = \<lparr>dbl_add = (\<lambda>x y. x + y), distanceBetween = (\<lambda>_ _ _ _. 0)\<rparr>"

definition grid_ops :: "real double_ops" where
  "grid_ops = \<lparr>dbl_add = (\<lambda>x y. x + y), distanceBetween = (\<lambda>a b c e. \<bar>c - a\<bar> + \<bar>e - b\<bar>)\<rparr>"

definition odd_ops :: "real double_ops" where
  "odd_ops = \<lparr>dbl_add = (\<lambda>x y. 2 * x + y), distanceBetween = (\<lambda>a b c e. \<bar>c - a\<bar> + \<bar>e - b\<bar>)\<rparr>"

definition fix_at :: "real \<Rightarrow> real \<Rightarrow> real gps_data" where
  "fix_at lat lng =
     \<lparr>location_isUpdated = True, location_lat = lat, location_lng = lng,
      date_isUpdated = True, time_isUpdated = True, date_year = 2024, date_month = 11,
      date_day = 28, time_hour = 12, time_minute = 34, time_second = 56,
      altitude_meters = 10, hdop_hdop = 1\<rparr>"

definition storage_fine :: fs_call where
  "storage_fine =
     \<lparr>getFsStorage_ok = True, mkdir_ok = True, open_ok = True, write_len = 6, short_read = None\<rparr>"

text \<open>The addresses \<^verbatim>\<open>02:00:00:00:HH:LL\<close>, numbered by the value of their last two bytes.\<close>

definition mk_mac :: "nat \<Rightarrow> string" where
  "mk_mac n =
     ''02:00:00:00:'' @ fmt_02X (word_of_nat (n div 256)) @ '':'' @ fmt_02X (word_of_nat (n mod 256))"

text \<open>
  The members that only \<^verbatim>\<open>loop\<close>, \<^verbatim>\<open>set_position\<close>, \<^verbatim>\<open>create_filename\<close>,
  \<^verbatim>\<open>dump_gps_data\<close>, \<^verbatim>\<open>append_to_file\<close> and \<^verbatim>\<open>end\<close> write: two states agree on them.
\<close>

definition session_fields :: "'d wardriving \<Rightarrow> 'd wardriving \<Rightarrow> bool" where
  "session_fields s s' \<longleftrightarrow>
     date_time_updated s' = date_time_updated s \<and> initial_position_set s' = initial_position_set s \<and>
     cur_lat s' = cur_lat s \<and> cur_lng s' = cur_lng s \<and> distance s' = distance s \<and>
     filename s' = filename s \<and> returnToMenu s' = returnToMenu s \<and> gpsConnected s' = gpsConnected s"

text \<open>Why a run of \<^verbatim>\<open>loop\<close> has ended, if it has.\<close>

definition exit_of :: "'d step \<Rightarrow> exit_reason option" where
  "exit_of st = (case st of Return r s \<Rightarrow> Some r | Continue v s \<Rightarrow> None)"

text \<open>
  The file name as the specification words it: \<^verbatim>\<open>YYMMDD_HHMMSS_wardriving.csv\<close> with
  a two-digit year.
\<close>

definition spec_filename :: "'d gps_data \<Rightarrow> string" where
  "spec_filename g =
     fmt_0d 2 (date_year g mod 100) @ fmt_0d 2 (date_month g) @ fmt_0d 2 (date_day g) @ ''_'' @
     fmt_0d 2 (time_hour g) @ fmt_0d 2 (time_minute g) @ fmt_0d 2 (time_second g) @
     ''_wardriving.csv''"

text \<open>The decimal digit \<open>d\<close> as a character.\<close>

definition dg :: "nat \<Rightarrow> char" where
  "dg d = char_of (48 + d)"

text \<open>
  A round in which \<^verbatim>\<open>loop\<close> derives the file name when the name is empty: the round is
  not left at its top, serial data is available and, with an updated location, the
  scan is not empty, the storage is found and the log directory exists or can be
  made, or else, without an updated location, the year passes the test of \<^verbatim>\<open>loop\<close>.
  \<open>may_name\<close> is the part of this that depends on the inputs of the round only.
\<close>

definition name_due :: "'d tick \<Rightarrow> loop_vars \<Rightarrow> 'd wardriving \<Rightarrow> bool" where
  "name_due t v s \<longleftrightarrow>
     \<not> esc_top t \<and> \<not> returnToMenu s \<and> gps_available t \<and>
     (if location_isUpdated (gps t)
      then scan_amount t \<noteq> 0 \<and> getFsStorage_ok (file_call t) \<and>
           (fs_dir (snd (fs_check t v s)) \<or> mkdir_ok (file_call t))
      else CURRENT_YEAR \<le> date_year (gps t) \<and> date_year (gps t) < CURRENT_YEAR + 5)"

definition may_name :: "'d tick \<Rightarrow> bool" where
  "may_name t \<longleftrightarrow>
     gps_available t \<and>
     (if location_isUpdated (gps t) then scan_amount t \<noteq> 0 \<and> getFsStorage_ok (file_call t)
      else CURRENT_YEAR \<le> date_year (gps t) \<and> date_year (gps t) < CURRENT_YEAR + 5)"

text \<open>
  A round without serial data and without a key press; a round with data but no new
  location; and such a round whose date, of the year 2023, fails the test of \<^verbatim>\<open>loop\<close>.
\<close>

definition quiet_tick :: "real tick" where
  "quiet_tick =
     \<lparr>esc_top = False, millis_now = 1000, check_call = storage_fine, gps_available = False,
      gps = fix_at 0 0, scan_amount = 0, scan_nets = [], file_call = storage_fine,
      esc_wait = False\<rparr>"

definition data_tick :: "real tick" where
  "data_tick = quiet_tick\<lparr>gps_available := True, gps := (fix_at 1 1)\<lparr>location_isUpdated := False\<rparr>\<rparr>"

definition stale_tick :: "real tick" where
  "stale_tick = data_tick\<lparr>gps := (gps data_tick)\<lparr>date_year := 2023\<rparr>\<rparr>"

text \<open>
  A scan entry, the storage working while it is handled, and a round in which the
  location is updated although no date has been decoded yet (TinyGPS++ then reports the
  year 2000, month 0 and day 0) and the scan finds that entry.
\<close>

definition net1 :: network where
  "net1 = \<lparr>BSSIDstr = ''AA:BB:CC:DD:EE:01'', SSID = ''Net1'', channel = 6, RSSI = -70,
           encryptionType = WIFI_AUTH_WPA2_PSK\<rparr>"

definition entry_fine :: entry_env where
  "entry_fine = \<lparr>lookup_call = storage_fine, append_call = storage_fine, print_ok = True\<rparr>"

definition early_fix_tick :: "real tick" where
  "early_fix_tick =
     quiet_tick\<lparr>gps_available := True,
       gps := (fix_at 1 1)\<lparr>date_isUpdated := False, date_year := 2000, date_month := 0, date_day := 0\<rparr>,
       scan_amount := 1, scan_nets := [(net1, entry_fine)]\<rparr>"

text \<open>
  The bytes of the index file (none when the file does not exist) and its records: the
  file is a sequence of records of \<^verbatim>\<open>BLOCK_SIZE\<close> bytes, record \<open>i\<close> being the bytes from
  \<open>BLOCK_SIZE * i\<close> on, and the file size divided by \<^verbatim>\<open>BLOCK_SIZE\<close> is their number.
  The index holds an address when one of its records is the encoding of the address.
\<close>

definition index_bytes :: "'d wardriving \<Rightarrow> byte list" where
  "index_bytes s = (case fs_index s of None \<Rightarrow> [] | Some bs \<Rightarrow> bs)"

definition blocks :: "byte list \<Rightarrow> byte list list" where
  "blocks bs = map (\<lambda>i. take BLOCK_SIZE (drop (BLOCK_SIZE * i) bs)) [0..<length bs div BLOCK_SIZE]"

definition index_holds :: "string \<Rightarrow> byte list \<Rightarrow> bool" where
  "index_holds mac bs =
     (case macStringToBytes mac of None \<Rightarrow> False | Some key \<Rightarrow> key \<in> set (blocks bs))"

text \<open>
  The records that a lookup reads: all of them, or those before the read that comes
  back short.  One of the records read is the encoding of the address.
\<close>

definition records_read :: "fs_call \<Rightarrow> byte list \<Rightarrow> byte list list" where
  "records_read f bs = (case short_read f of None \<Rightarrow> blocks bs | Some k \<Rightarrow> take k (blocks bs))"

definition read_holds :: "fs_call \<Rightarrow> string \<Rightarrow> byte list \<Rightarrow> bool" where
  "read_holds f mac bs =
     (case macStringToBytes mac of None \<Rightarrow> False | Some key \<Rightarrow> key \<in> set (records_read f bs))"

text \<open>
  \<^verbatim>\<open>isMacInIndex\<close> gets as far as its read loop when the first line passes, the storage
  is found and the file opens for reading; the index can be read when, in addition,
  every read is complete.  \<^verbatim>\<open>addMacToIndex\<close> appends a whole record when the first line
  passes, the storage is found, the file opens for appending and \<^verbatim>\<open>write\<close> accepts
  \<^verbatim>\<open>BLOCK_SIZE\<close> bytes.
\<close>

definition index_opens :: "fs_call \<Rightarrow> 'd wardriving \<Rightarrow> bool" where
  "index_opens f s \<longleftrightarrow>
     fst (index_ready f s) \<and> getFsStorage_ok f \<and> open_ok f \<and> fs_index (snd (index_ready f s)) \<noteq> None"

definition index_readable :: "fs_call \<Rightarrow> 'd wardriving \<Rightarrow> bool" where
  "index_readable f s \<longleftrightarrow> index_opens f s \<and> short_read f = None"

definition index_writable :: "fs_call \<Rightarrow> 'd wardriving \<Rightarrow> bool" where
  "index_writable f s \<longleftrightarrow>
     fst (index_ready f s) \<and> getFsStorage_ok f \<and> open_ok f \<and> BLOCK_SIZE \<le> write_len f"

text \<open>
  A scan entry is new: the address is well formed, the network name is not empty, the
  address is not in the cache, and the index does not open for the lookup or none of
  the records that the lookup reads is the encoding of the address.
\<close>

definition entry_new :: "'d wardriving \<Rightarrow> network \<times> entry_env \<Rightarrow> bool" where
  "entry_new s ne \<longleftrightarrow>
     isValidMacString (BSSIDstr (fst ne)) \<and> SSID (fst ne) \<noteq> [] \<and>
     \<not> isMacInCache (BSSIDstr (fst ne)) s \<and>
     \<not> (index_opens (lookup_call (snd ne)) s \<and>
        read_holds (lookup_call (snd ne)) (BSSIDstr (fst ne)) (index_bytes s))"



definition open_fails :: fs_call where
  "open_fails = storage_fine\<lparr>open_ok := False\<rparr>"

definition read_fails :: fs_call where
  "read_fails = storage_fine\<lparr>short_read := Some 0\<rparr>"

definition row_lost :: "real wardriving" where
  "row_lost =
     append_entry (fix_at 1 1) (initial True (Some []) Map.empty :: real wardriving)
       (net1, entry_fine\<lparr>print_ok := False\<rparr>)"

definition next_session :: "real wardriving" where
  "next_session = initial True (fs_index row_lost) (fs_logs row_lost)"

section \<open>Properties\<close>

subsection \<open>MAC codec\<close>

lemma hexval_lt: "isxdigit c \<Longrightarrow> hexval c < 16"
  unfolding isxdigit_def hexval_def Let_def by auto

lemma hexdigit_upper_hexval: "isxdigit c \<Longrightarrow> hexdigit_upper (hexval c) = toupper c"
proof -
  assume h: "isxdigit c"
  define n where "n = (of_char c :: nat)"
  have c: "char_of n = c" by (simp add: n_def)
  from h consider "48 \<le> n \<and> n \<le> 57" | "65 \<le> n \<and> n \<le> 70" | "97 \<le> n \<and> n \<le> 102"
    unfolding isxdigit_def n_def [symmetric] Let_def by auto
  then show ?thesis
  proof cases
    case 1
    then have hv: "hexval c = n - 48"
      unfolding hexval_def n_def [symmetric] Let_def by simp
    from 1 have "n - 48 < 10" "48 + (n - 48) = n" "\<not> 97 \<le> n" by arith+
    then show ?thesis
      unfolding hv hexdigit_upper_def toupper_def n_def [symmetric] Let_def
      using c by simp
  next
    case 2
    then have hv: "hexval c = n - 55"
      unfolding hexval_def n_def [symmetric] Let_def by simp
    from 2 have "\<not> n - 55 < 10" "55 + (n - 55) = n" "\<not> 97 \<le> n" by arith+
    then show ?thesis
      unfolding hv hexdigit_upper_def toupper_def n_def [symmetric] Let_def
      using c by simp
  next
    case 3
    then have hv: "hexval c = n - 87"
      unfolding hexval_def n_def [symmetric] Let_def by simp
    from 3 have "\<not> n - 87 < 10" "55 + (n - 87) = n - 32" "97 \<le> n \<and> n \<le> 122" by arith+
    then show ?thesis
      unfolding hv hexdigit_upper_def toupper_def n_def [symmetric] Let_def
      by simp
  qed
qed

lemma strtol16_pair:
  "isxdigit a \<Longrightarrow> isxdigit b \<Longrightarrow> strtol16 [a, b] = hexval a * 16 + hexval b"
  by (simp add: strtol16_def)

lemma unat_byte_of_nat: "k < 256 \<Longrightarrow> unat (word_of_nat k :: byte) = k"
  by (simp add: unat_of_nat)

lemma fmt_02X_pair:
  assumes "isxdigit a" "isxdigit b"
  shows "fmt_02X (word_of_nat (strtol16 [a, b])) = [toupper a, toupper b]"
proof -
  have la: "hexval a < 16" and lb: "hexval b < 16"
    using assms by (simp_all add: hexval_lt)
  then have lt: "hexval a * 16 + hexval b < 256" by arith
  have u: "unat (word_of_nat (hexval a * 16 + hexval b) :: byte) = hexval a * 16 + hexval b"
    using lt by (rule unat_byte_of_nat)
  have d: "(hexval a * 16 + hexval b) div 16 = hexval a" using lb by simp
  have m: "(hexval a * 16 + hexval b) mod 16 = hexval b" using lb by simp
  show ?thesis
    unfolding fmt_02X_def strtol16_pair [OF assms] u d m
    by (simp add: assms hexdigit_upper_hexval)
qed

lemma toupper_colon: "toupper (CHR '':'') = CHR '':''"
  by (simp add: toupper_def)

lemma valid_shape:
  "isValidMacString [c0, c1, c2, c3, c4, c5, c6, c7, c8, c9, c10, c11, c12, c13, c14, c15, c16] =
   (isxdigit c0 \<and> isxdigit c1 \<and> c2 = CHR '':'' \<and> isxdigit c3 \<and> isxdigit c4 \<and> c5 = CHR '':'' \<and>
    isxdigit c6 \<and> isxdigit c7 \<and> c8 = CHR '':'' \<and> isxdigit c9 \<and> isxdigit c10 \<and> c11 = CHR '':'' \<and>
    isxdigit c12 \<and> isxdigit c13 \<and> c14 = CHR '':'' \<and> isxdigit c15 \<and> isxdigit c16)"
  by (simp add: isValidMacString_def upt_rec)

text \<open>
  C7.  For every address string that passes \<^verbatim>\<open>isValidMacString\<close>, \<^verbatim>\<open>macStringToBytes\<close>
  succeeds with six bytes, and \<^verbatim>\<open>bytesToMacString\<close> of these bytes is the string with
  every character in upper case.
\<close>

theorem decode_encode_uppercase:
  assumes "isValidMacString s"
  shows "\<exists>bs. macStringToBytes s = Some bs \<and> length bs = BLOCK_SIZE \<and>
              bytesToMacString bs = uppercase s"
proof -
  from assms have "length s = 17" by (simp add: isValidMacString_def)
  then obtain c0 c1 c2 c3 c4 c5 c6 c7 c8 c9 c10 c11 c12 c13 c14 c15 c16 where
    s: "s = [c0, c1, c2, c3, c4, c5, c6, c7, c8, c9, c10, c11, c12, c13, c14, c15, c16]"
    by (auto simp: eval_nat_numeral length_Suc_conv)
  from assms have v: "isxdigit c0" "isxdigit c1" "c2 = CHR '':''" "isxdigit c3" "isxdigit c4"
    "c5 = CHR '':''" "isxdigit c6" "isxdigit c7" "c8 = CHR '':''" "isxdigit c9" "isxdigit c10"
    "c11 = CHR '':''" "isxdigit c12" "isxdigit c13" "c14 = CHR '':''" "isxdigit c15" "isxdigit c16"
    unfolding s valid_shape by simp_all
  show ?thesis
    using assms unfolding macStringToBytes_def
    by (simp add: s v fmt_02X_pair uppercase_def toupper_colon BLOCK_SIZE_def)
qed

theorem decode_encode_uppercase_witness:
  "isValidMacString ''aa:Bb:0c:1D:e9:Ff'' \<and>
   macStringToBytes ''aa:Bb:0c:1D:e9:Ff'' = Some [170, 187, 12, 29, 233, 255] \<and>
   bytesToMacString [170, 187, 12, 29, 233, 255] = ''AA:BB:0C:1D:E9:FF'' \<and>
   uppercase ''aa:Bb:0c:1D:e9:Ff'' = ''AA:BB:0C:1D:E9:FF''"
proof -
  have v: "isValidMacString ''aa:Bb:0c:1D:e9:Ff''" by code_simp
  have e: "macStringToBytes ''aa:Bb:0c:1D:e9:Ff'' = Some [170, 187, 12, 29, 233, 255]"
    by code_simp
  have u: "uppercase ''aa:Bb:0c:1D:e9:Ff'' = ''AA:BB:0C:1D:E9:FF''" by code_simp
  from decode_encode_uppercase [OF v] e u show ?thesis using v by simp
qed

subsection \<open>Position tracking\<close>

lemma track_Cons: "track ops (g # gs) s = track ops gs (set_position ops g s)"
  by (simp add: track_def)

lemma set_position_fields:
  "initial_position_set (set_position ops g s)"
  "cur_lat (set_position ops g s) = location_lat g"
  "cur_lng (set_position ops g s) = location_lng g"
  "distance (set_position ops g s) =
     (if initial_position_set s
      then dbl_add ops (distance s)
             (distanceBetween ops (cur_lat s) (cur_lng s) (location_lat g) (location_lng g))
      else distance s)"
  by (simp_all add: set_position_def Let_def)

lemma track_from_set:
  "initial_position_set s \<Longrightarrow>
   distance (track ops gs s) =
     sum_in_order ops (distance s) (legs ops ((cur_lat s, cur_lng s) # map coords gs))"
proof (induction gs arbitrary: s)
  case Nil
  then show ?case by (simp add: track_def sum_in_order_def)
next
  case (Cons g gs)
  have "distance (track ops (g # gs) s) = distance (track ops gs (set_position ops g s))"
    by (simp only: track_Cons)
  also have "\<dots> = sum_in_order ops (distance (set_position ops g s))
      (legs ops ((location_lat g, location_lng g) # map coords gs))"
    using Cons.IH [of "set_position ops g s"] by (simp only: set_position_fields)
  also have "\<dots> = sum_in_order ops (distance s)
      (legs ops ((cur_lat s, cur_lng s) # map coords (g # gs)))"
    using Cons.prems by (simp add: set_position_fields coords_def sum_in_order_def)
  finally show ?case .
qed

lemma track_from_unset:
  assumes "\<not> initial_position_set s"
  shows "distance (track ops gs s) = sum_in_order ops (distance s) (legs ops (map coords gs))"
proof (cases gs)
  case Nil
  then show ?thesis by (simp add: track_def sum_in_order_def)
next
  case (Cons g rest)
  have "distance (track ops (g # rest) s) =
        sum_in_order ops (distance (set_position ops g s))
          (legs ops ((location_lat g, location_lng g) # map coords rest))"
    unfolding track_Cons
    using track_from_set [of "set_position ops g s" ops rest] by (simp only: set_position_fields)
  with assms show ?thesis
    unfolding Cons by (simp add: set_position_fields coords_def)
qed

text \<open>
  C8.  The first fix of a session only sets the current position and leaves the
  distance as it is; every later fix adds, with the addition of doubles, the distance
  between the stored and the new coordinates to the distance and then becomes the
  current position.  Hence, after a sequence of fixes, the distance is the sum of the
  distances between consecutive fixes, added to the starting value in the order of the
  fixes.  Nothing is assumed about the addition or about \<^verbatim>\<open>distanceBetween\<close>, so
  this holds for the rounded addition of doubles.
\<close>

theorem distance_is_path_length:
  "(\<not> initial_position_set s \<longrightarrow>
      distance (set_position ops g s) = distance s \<and>
      distance (track ops gs s) = sum_in_order ops (distance s) (legs ops (map coords gs))) \<and>
   (initial_position_set s \<longrightarrow>
      distance (set_position ops g s) =
        dbl_add ops (distance s)
          (distanceBetween ops (cur_lat s) (cur_lng s) (location_lat g) (location_lng g))) \<and>
   initial_position_set (set_position ops g s) \<and>
   cur_lat (set_position ops g s) = location_lat g \<and>
   cur_lng (set_position ops g s) = location_lng g"
  by (simp add: set_position_fields track_from_unset)

theorem distance_is_path_length_witness:
  "distance (track grid_ops [fix_at 1 1, fix_at 2 3, fix_at 0 3] (initial True None Map.empty)) = 5 \<and>
   distance (track odd_ops [fix_at 1 1, fix_at 2 3, fix_at 0 3] (initial True None Map.empty)) = 8 \<and>
   distance (set_position grid_ops (fix_at 1 1) (initial True None Map.empty)) = 0 \<and>
   distance (set_position grid_ops (fix_at 2 3)
      (set_position grid_ops (fix_at 1 1) (initial True None Map.empty))) = 3"
proof -
  let ?s = "initial True None Map.empty :: real wardriving"
  let ?s1 = "set_position grid_ops (fix_at 1 1) ?s"
  let ?gs = "[fix_at 1 1, fix_at 2 3, fix_at 0 3]"
  have u: "\<not> initial_position_set ?s" "distance ?s = 0" by (simp_all add: initial_def)
  have s1: "initial_position_set ?s1" "distance ?s1 = 0" "cur_lat ?s1 = 1" "cur_lng ?s1 = 1"
    by (simp_all add: set_position_def initial_def fix_at_def)
  from distance_is_path_length [of ?s grid_ops "fix_at 1 1" ?gs] u
  have 1: "distance (track grid_ops ?gs ?s) = 5" "distance ?s1 = 0"
    by (simp_all add: coords_def fix_at_def sum_in_order_def grid_ops_def)
  from distance_is_path_length [of ?s odd_ops "fix_at 1 1" ?gs] u
  have 2: "distance (track odd_ops ?gs ?s) = 8"
    by (simp add: coords_def fix_at_def sum_in_order_def odd_ops_def)
  from distance_is_path_length [of ?s1 grid_ops "fix_at 2 3" "[]"] s1
  have 3: "distance (set_position grid_ops (fix_at 2 3) ?s1) = 3"
    by (simp add: fix_at_def grid_ops_def)
  from 1 2 3 show ?thesis by simp
qed

subsection \<open>Waiting for the GPS at start-up\<close>

lemma begin_gps_wait_event:
  assumes "begin_gps_wait available esc n = Some r"
  shows "\<exists>i\<ge>n. available i \<or> esc i"
proof (rule begin_gps_wait.raw_induct [where P = "\<lambda>a e c y. \<exists>i\<ge>c. a i \<or> e i", OF _ assms])
  fix f :: "(nat \<Rightarrow> bool) \<Rightarrow> (nat \<Rightarrow> bool) \<Rightarrow> nat \<Rightarrow> bool option"
  fix a e :: "nat \<Rightarrow> bool" and c :: nat and y :: bool
  assume IH: "\<And>e' c' b y. f e' c' b = Some y \<Longrightarrow> \<exists>i\<ge>b. e' i \<or> c' i"
  assume eq: "(if a c then Some True else if e c then Some False else f a e (c + 1)) = Some y"
  show "\<exists>i\<ge>c. a i \<or> e i"
  proof (cases "a c \<or> e c")
    case True
    then show ?thesis by blast
  next
    case False
    with eq have "f a e (c + 1) = Some y" by simp
    from IH [OF this] obtain i where "i \<ge> c + 1" "a i \<or> e i" by blast
    then show ?thesis by (intro exI [of _ i]) simp
  qed
qed

lemma begin_gps_wait_silent:
  "\<forall>i\<ge>n. \<not> available i \<and> \<not> esc i \<Longrightarrow> begin_gps_wait available esc n = None"
  using begin_gps_wait_event [of available esc n] by (cases "begin_gps_wait available esc n") auto

lemma begin_gps_wait_skip:
  "\<forall>i<k. \<not> available (n + i) \<and> \<not> esc (n + i) \<Longrightarrow>
   begin_gps_wait available esc n = begin_gps_wait available esc (n + k)"
proof (induction k arbitrary: n)
  case 0
  then show ?case by simp
next
  case (Suc k)
  from Suc.prems have here: "\<not> available n" "\<not> esc n" by force+
  from Suc.prems have "\<forall>i<k. \<not> available (Suc n + i) \<and> \<not> esc (Suc n + i)"
    by (metis Suc_less_eq add_Suc_shift)
  from Suc.IH [OF this] here show ?case
    by (subst begin_gps_wait.simps) simp
qed

lemma begin_gps_wait_first:
  assumes "\<forall>i<k. \<not> available i \<and> \<not> esc i" and "available k \<or> esc k"
  shows "begin_gps_wait available esc 0 = Some (available k)"
proof -
  have "begin_gps_wait available esc 0 = begin_gps_wait available esc k"
    using begin_gps_wait_skip [where k = k and n = 0 and available = available and esc = esc] assms(1) by simp
  also have "\<dots> = Some (available k)"
    using assms(2) by (subst begin_gps_wait.simps) auto
  finally show ?thesis .
qed

text \<open>
  C2, as the code has it.  \<^verbatim>\<open>begin_gps\<close> has no time limit.  When the receiver never
  sends a byte and the key is never pressed, the wait does not return: the session
  reaches neither \<^verbatim>\<open>loop\<close> nor \<^verbatim>\<open>end\<close>.  When the key is pressed before any byte has
  arrived, \<^verbatim>\<open>setup\<close> returns after \<^verbatim>\<open>end()\<close> without entering \<^verbatim>\<open>loop\<close>.
\<close>

theorem startup_wait:
  "((\<forall>i. \<not> available i \<and> \<not> esc i) \<longrightarrow> wardriving_setup d available esc f ts s = None) \<and>
   ((\<forall>i<k. \<not> available i \<and> \<not> esc i) \<and> \<not> available k \<and> esc k \<longrightarrow>
      wardriving_setup d available esc f ts s = Some (NotStarted (wardriving_end s)))"
proof (intro conjI impI)
  assume "\<forall>i. \<not> available i \<and> \<not> esc i"
  then have "begin_gps_wait available esc 0 = None"
    by (simp add: begin_gps_wait_silent)
  then show "wardriving_setup d available esc f ts s = None"
    by (simp add: wardriving_setup_def begin_gps_def)
next
  assume h: "(\<forall>i<k. \<not> available i \<and> \<not> esc i) \<and> \<not> available k \<and> esc k"
  then have "begin_gps_wait available esc 0 = Some (available k)"
    by (intro begin_gps_wait_first) auto
  with h show "wardriving_setup d available esc f ts s = Some (NotStarted (wardriving_end s))"
    by (simp add: wardriving_setup_def begin_gps_def)
qed

theorem startup_wait_witness:
  "wardriving_setup plain_ops (\<lambda>_. False) (\<lambda>_. False)
     storage_fine []
     (initial False None Map.empty) = None \<and>
   wardriving_setup plain_ops (\<lambda>_. False) (\<lambda>i. i = 3)
     storage_fine []
     (initial False None Map.empty) = Some (NotStarted (wardriving_end (initial False None Map.empty)))"
  using startup_wait [where available = "\<lambda>_. False" and esc = "\<lambda>_. False" and d = "plain_ops"
     and f = "storage_fine" and ts = "[]"
     and s = "initial False None Map.empty" and k = 0]
    startup_wait [where available = "\<lambda>_. False" and esc = "\<lambda>i. i = 3" and d = "plain_ops"
     and f = "storage_fine" and ts = "[]"
     and s = "initial False None Map.empty" and k = 3]
  by simp


text \<open>
  C2 as stated fails: with a silent receiver and no key press, \<^verbatim>\<open>begin_gps\<close> does not
  return, so the session is never terminated.
\<close>

theorem startup_never_times_out:
  "begin_gps (\<lambda>_. False) (\<lambda>_. False) (initial False None Map.empty) = None"
  by (simp add: begin_gps_def begin_gps_wait_silent)

subsection \<open>The cache\<close>

lemma set_set_insert: "set (set_insert x xs) = insert x (set xs)"
  by (induction xs) auto

lemma length_set_insert_new: "x \<notin> set xs \<Longrightarrow> length (set_insert x xs) = Suc (length xs)"
  by (induction xs) auto


lemma erase_until_drop: "erase_until t xs = drop (length xs - t) xs"
proof (induction xs)
  case Nil
  then show ?case by simp
next
  case (Cons x xs)
  show ?case
  proof (cases "length (x # xs) > t")
    case True
    then have "length (x # xs) - t = Suc (length xs - t)" by simp
    with True Cons.IH show ?thesis by simp
  next
    case False
    then show ?thesis by simp
  qed
qed

lemma cache_addMacToCache:
  "macAddressCache (addMacToCache mac s) =
     (let c = set_insert mac (macAddressCache s)
      in if length c > CACHE_CLEAN_THRESHOLD then drop (length c - CACHE_SIZE div 2) c else c)"
  by (simp add: addMacToCache_def maintainCache_def Let_def erase_until_drop)

lemma length_addMacToCache:
  "length (macAddressCache (addMacToCache mac s)) =
     (let n = length (set_insert mac (macAddressCache s))
      in if n > CACHE_CLEAN_THRESHOLD then min n (CACHE_SIZE div 2) else n)"
  by (auto simp add: cache_addMacToCache Let_def)

lemma length_addMacToCache_le:
  "length (macAddressCache (addMacToCache mac s)) \<le> CACHE_CLEAN_THRESHOLD"
  by (simp add: length_addMacToCache Let_def CACHE_SIZE_def CACHE_CLEAN_THRESHOLD_def)

lemma set_addMacToCache_subset:
  "set (macAddressCache (addMacToCache mac s)) \<subseteq> insert mac (set (macAddressCache s))"
  using set_drop_subset [of _ "set_insert mac (macAddressCache s)"]
  by (auto simp add: cache_addMacToCache Let_def set_set_insert)

lemma cache_after_snoc: "cache_after (macs @ [m]) s = addMacToCache m (cache_after macs s)"
  by (simp add: cache_after_def)

lemma length_cache_after_le:
  "length (macAddressCache s) \<le> CACHE_CLEAN_THRESHOLD \<Longrightarrow>
   length (macAddressCache (cache_after macs s)) \<le> CACHE_CLEAN_THRESHOLD"
  by (induction macs rule: rev_induct) (simp_all add: cache_after_snoc length_addMacToCache_le, simp add: cache_after_def)

lemma set_cache_after_subset:
  "set (macAddressCache (cache_after macs s)) \<subseteq> set macs \<union> set (macAddressCache s)"
proof (induction macs rule: rev_induct)
  case Nil
  then show ?case by (simp add: cache_after_def)
next
  case (snoc m macs)
  with set_addMacToCache_subset [of m "cache_after macs s"] show ?case
    by (auto simp: cache_after_snoc)
qed

text \<open>Below the threshold nothing is erased.\<close>

lemma cache_after_small:
  assumes "distinct macs" "macAddressCache s = []" "length macs \<le> CACHE_CLEAN_THRESHOLD"
  shows "length (macAddressCache (cache_after macs s)) = length macs \<and>
         set (macAddressCache (cache_after macs s)) = set macs"
  using assms
proof (induction macs rule: rev_induct)
  case Nil
  then show ?case by (simp add: cache_after_def)
next
  case (snoc m macs)
  then have IH: "length (macAddressCache (cache_after macs s)) = length macs"
    "set (macAddressCache (cache_after macs s)) = set macs" by simp_all
  from snoc.prems have new: "m \<notin> set (macAddressCache (cache_after macs s))"
    by (simp add: IH)
  have len: "length (set_insert m (macAddressCache (cache_after macs s))) = Suc (length macs)"
    using length_set_insert_new [OF new] IH by simp
  with snoc.prems(3) have "\<not> length (set_insert m (macAddressCache (cache_after macs s))) > CACHE_CLEAN_THRESHOLD"
    by simp
  then have "macAddressCache (cache_after (macs @ [m]) s) = set_insert m (macAddressCache (cache_after macs s))"
    by (simp add: cache_after_snoc cache_addMacToCache Let_def)
  then show ?case by (simp add: len set_set_insert IH)
qed

lemma cache_after_crossing:
  assumes "distinct macs" "macAddressCache s = []" "length macs = Suc CACHE_CLEAN_THRESHOLD"
  shows "length (macAddressCache (cache_after macs s)) = CACHE_SIZE div 2"
proof -
  from assms(3) obtain ms m where macs: "macs = ms @ [m]"
    by (cases macs rule: rev_cases) auto
  with assms have d: "distinct ms" "m \<notin> set ms" "length ms = CACHE_CLEAN_THRESHOLD" by simp_all
  from cache_after_small [OF d(1) assms(2)] d(3)
  have small: "length (macAddressCache (cache_after ms s)) = CACHE_CLEAN_THRESHOLD"
    "set (macAddressCache (cache_after ms s)) = set ms" by simp_all
  have "length (set_insert m (macAddressCache (cache_after ms s))) = Suc CACHE_CLEAN_THRESHOLD"
    using length_set_insert_new [of m "macAddressCache (cache_after ms s)"] small d(2) by simp
  then show ?thesis
    unfolding macs cache_after_snoc length_addMacToCache
    by (simp add: CACHE_SIZE_def CACHE_CLEAN_THRESHOLD_def)
qed

text \<open>Facts about the example addresses.\<close>

lemma of_char_hexdigit_upper:
  "d < 16 \<Longrightarrow> (of_char (hexdigit_upper d) :: nat) = (if d < 10 then 48 + d else 55 + d)"
  by (simp add: hexdigit_upper_def)

lemma hexdigit_upper_inj: "a < 16 \<Longrightarrow> b < 16 \<Longrightarrow> hexdigit_upper a = hexdigit_upper b \<Longrightarrow> a = b"
proof -
  assume a: "a < 16" and b: "b < 16" and e: "hexdigit_upper a = hexdigit_upper b"
  from e have "(of_char (hexdigit_upper a) :: nat) = of_char (hexdigit_upper b)" by simp
  then show "a = b"
    unfolding of_char_hexdigit_upper [OF a] of_char_hexdigit_upper [OF b]
    by (simp split: if_splits)
qed

lemma isxdigit_hexdigit_upper: "d < 16 \<Longrightarrow> isxdigit (hexdigit_upper d)"
  unfolding isxdigit_def Let_def by (simp add: of_char_hexdigit_upper)

lemma fmt_02X_inj: "fmt_02X a = fmt_02X b \<Longrightarrow> a = b"
proof -
  assume e: "fmt_02X a = fmt_02X b"
  have la: "unat a < 256" and lb: "unat b < 256"
    using unsigned_less [of a, where ?'a = nat] unsigned_less [of b, where ?'a = nat] by simp_all
  then have "unat a div 16 < 16" "unat b div 16 < 16" by simp_all
  with e have d: "unat a div 16 = unat b div 16"
    by (auto simp: fmt_02X_def intro: hexdigit_upper_inj)
  from e have m: "unat a mod 16 = unat b mod 16"
    by (auto simp: fmt_02X_def intro: hexdigit_upper_inj)
  from d m have "unat a = unat b"
    by (metis div_mult_mod_eq)
  then show "a = b" by (simp add: word_unat_eq_iff)
qed

lemma fmt_02X_append_eq:
  "fmt_02X a @ xs = fmt_02X b @ ys \<longleftrightarrow> fmt_02X a = fmt_02X b \<and> xs = ys"
  by (simp add: fmt_02X_def)

lemma mk_mac_inj: "a < 65536 \<Longrightarrow> b < 65536 \<Longrightarrow> mk_mac a = mk_mac b \<Longrightarrow> a = b"
proof -
  assume a: "a < 65536" and b: "b < 65536" and e: "mk_mac a = mk_mac b"
  from a b have l: "a div 256 < 256" "b div 256 < 256" "a mod 256 < 256" "b mod 256 < 256" by simp_all
  from e have "(word_of_nat (a div 256) :: byte) = word_of_nat (b div 256)"
    "(word_of_nat (a mod 256) :: byte) = word_of_nat (b mod 256)"
    by (auto simp: mk_mac_def fmt_02X_append_eq dest: fmt_02X_inj)
  then have "unat (word_of_nat (a div 256) :: byte) = unat (word_of_nat (b div 256) :: byte)"
    "unat (word_of_nat (a mod 256) :: byte) = unat (word_of_nat (b mod 256) :: byte)" by simp_all
  then have "a div 256 = b div 256" "a mod 256 = b mod 256"
    using l by (simp_all add: unat_of_nat)
  then show "a = b" by (metis div_mult_mod_eq)
qed

lemma distinct_mk_macs:
  assumes "n \<le> 65536"
  shows "distinct (map mk_mac [m..<n])"
proof -
  have "inj_on mk_mac (set [m..<n])"
  proof (rule inj_onI)
    fix a b assume "a \<in> set [m..<n]" "b \<in> set [m..<n]" "mk_mac a = mk_mac b"
    with assms show "a = b" by (intro mk_mac_inj) simp_all
  qed
  then show ?thesis by (simp add: distinct_map)
qed

lemma mk_mac_valid: "isValidMacString (mk_mac n)"
proof -
  have b: "unat (w :: byte) div 16 < 16" for w
    using unsigned_less [of w, where ?'a = nat] by simp
  show ?thesis
    unfolding mk_mac_def fmt_02X_def
    by (simp add: isValidMacString_def upt_rec isxdigit_hexdigit_upper b) (simp add: isxdigit_def)
qed

text \<open>
  C4.  When more than \<^verbatim>\<open>CACHE_CLEAN_THRESHOLD\<close> distinct addresses are put into an empty
  cache one after the other, the cache never holds more than \<^verbatim>\<open>CACHE_SIZE\<close> entries
  after an insertion; it holds \<open>k\<close> entries after the first \<open>k\<close> addresses as long as
  \<open>k\<close> does not exceed the threshold, and exactly \<^verbatim>\<open>CACHE_SIZE / 2\<close> entries after the
  address that crosses the threshold.
\<close>

theorem cache_bounded_and_halved:
  assumes "distinct macs" and "length macs > CACHE_CLEAN_THRESHOLD" and "macAddressCache s = []"
  shows "(\<forall>k \<le> length macs. length (macAddressCache (cache_after (take k macs) s)) \<le> CACHE_SIZE) \<and>
         (\<forall>k \<le> CACHE_CLEAN_THRESHOLD. length (macAddressCache (cache_after (take k macs) s)) = k) \<and>
         length (macAddressCache (cache_after (take (Suc CACHE_CLEAN_THRESHOLD) macs) s)) = CACHE_SIZE div 2"
proof (intro conjI allI impI)
  fix k
  have "length (macAddressCache (cache_after (take k macs) s)) \<le> CACHE_CLEAN_THRESHOLD"
    using assms(3) by (intro length_cache_after_le) simp
  then show "length (macAddressCache (cache_after (take k macs) s)) \<le> CACHE_SIZE"
    by (simp add: CACHE_SIZE_def CACHE_CLEAN_THRESHOLD_def)
next
  fix k assume "k \<le> CACHE_CLEAN_THRESHOLD"
  with assms(2) have "length (take k macs) = k" "length (take k macs) \<le> CACHE_CLEAN_THRESHOLD" by simp_all
  with cache_after_small [of "take k macs" s] assms(1,3)
  show "length (macAddressCache (cache_after (take k macs) s)) = k" by simp
next
  from assms(2) have "length (take (Suc CACHE_CLEAN_THRESHOLD) macs) = Suc CACHE_CLEAN_THRESHOLD"
    by simp
  with cache_after_crossing [of "take (Suc CACHE_CLEAN_THRESHOLD) macs" s] assms(1,3)
  show "length (macAddressCache (cache_after (take (Suc CACHE_CLEAN_THRESHOLD) macs) s)) = CACHE_SIZE div 2"
    by simp
qed

theorem cache_bounded_and_halved_witness:
  "length (macAddressCache (cache_after (map mk_mac [0..<800]) (initial True None Map.empty))) = 800 \<and>
   length (macAddressCache (cache_after (map mk_mac [0..<801]) (initial True None Map.empty))) = 500 \<and>
   length (macAddressCache (cache_after (map mk_mac [0..<1200]) (initial True None Map.empty))) \<le> 1000"
proof -
  let ?s = "initial True None Map.empty"
  let ?macs = "map mk_mac [0..<1200]"
  have d: "distinct ?macs" by (rule distinct_mk_macs) simp
  have l: "length ?macs > CACHE_CLEAN_THRESHOLD" by (simp add: CACHE_CLEAN_THRESHOLD_def)
  have e: "macAddressCache ?s = []" by (simp add: initial_def)
  have t: "take 800 ?macs = map mk_mac [0..<800]" "take 801 ?macs = map mk_mac [0..<801]"
    by (simp_all add: take_map take_upt)
  note th = cache_bounded_and_halved [OF d l e]
  from th [THEN conjunct1, rule_format, of 1200]
    th [THEN conjunct2, THEN conjunct1, rule_format, of 800]
    th [THEN conjunct2, THEN conjunct2]
  have "length (macAddressCache (cache_after (take 1200 ?macs) ?s)) \<le> CACHE_SIZE"
    "length (macAddressCache (cache_after (take 800 ?macs) ?s)) = 800"
    "length (macAddressCache (cache_after (take (Suc CACHE_CLEAN_THRESHOLD) ?macs) ?s)) = CACHE_SIZE div 2"
    by (simp_all add: CACHE_CLEAN_THRESHOLD_def)
  then show ?thesis
    using t by (simp add: CACHE_SIZE_def CACHE_CLEAN_THRESHOLD_def)
qed

subsection \<open>What the storage functions leave as it is\<close>

lemma session_fields_refl: "session_fields s s"
  by (simp add: session_fields_def)

lemma session_fields_trans: "session_fields a b \<Longrightarrow> session_fields b c \<Longrightarrow> session_fields a c"
  by (simp add: session_fields_def)

lemma checkFileSystem_result:
  "checkFileSystem f s = (b, s') \<Longrightarrow> s' = s \<or> s' = s\<lparr>fs_dir := True\<rparr>"
  unfolding checkFileSystem_def by (simp split: if_splits)

lemma checkFileSystem_keeps:
  "checkFileSystem f s = (b, s') \<Longrightarrow>
   session_fields s s' \<and> macAddressCache s' = macAddressCache s \<and>
   wifiNetworkCount s' = wifiNetworkCount s \<and> fs_logs s' = fs_logs s \<and>
   fs_index s' = fs_index s \<and> indexFileInitialized s' = indexFileInitialized s"
proof -
  assume "checkFileSystem f s = (b, s')"
  from checkFileSystem_result [OF this] show ?thesis
  proof
    assume "s' = s"
    then show ?thesis by (simp add: session_fields_def)
  next
    assume "s' = s\<lparr>fs_dir := True\<rparr>"
    then show ?thesis by (simp add: session_fields_def)
  qed
qed

lemma initializeIndex_result:
  "initializeIndex f s = (b, s') \<Longrightarrow>
   \<exists>d. s' = s\<lparr>fs_dir := d\<rparr> \<or>
       (fs_index s = None \<and> s' = s\<lparr>fs_dir := d, fs_index := Some [], indexFileInitialized := True\<rparr>) \<or>
       s' = s\<lparr>fs_dir := d, indexFileInitialized := True\<rparr>"
proof -
  assume h: "initializeIndex f s = (b, s')"
  obtain c s1 where c: "checkFileSystem f s = (c, s1)" by (cases "checkFileSystem f s")
  from checkFileSystem_result [OF c] have s1: "s1 = s\<lparr>fs_dir := fs_dir s1\<rparr>" by auto
  from h c have "s' = s \<or> s' = s1 \<or>
      (fs_index s1 = None \<and> s' = s1\<lparr>fs_index := Some [], indexFileInitialized := True\<rparr>) \<or>
      s' = s1\<lparr>indexFileInitialized := True\<rparr>"
    unfolding initializeIndex_def by (cases c) (simp_all split: if_splits)
  then show ?thesis
  proof (elim disjE conjE)
    assume "s' = s"
    then have "s' = s\<lparr>fs_dir := fs_dir s\<rparr>" by simp
    then show ?thesis by (intro exI [of _ "fs_dir s"] disjI1)
  next
    assume "s' = s1"
    with s1 have "s' = s\<lparr>fs_dir := fs_dir s1\<rparr>" by simp
    then show ?thesis by (intro exI [of _ "fs_dir s1"] disjI1)
  next
    assume n: "fs_index s1 = None" and e: "s' = s1\<lparr>fs_index := Some [], indexFileInitialized := True\<rparr>"
    from checkFileSystem_keeps [OF c] n have "fs_index s = None" by simp
    moreover from e s1 have "s' = s\<lparr>fs_dir := fs_dir s1, fs_index := Some [], indexFileInitialized := True\<rparr>"
      by simp
    ultimately show ?thesis by (intro exI [of _ "fs_dir s1"] disjI2 disjI1 conjI)
  next
    assume "s' = s1\<lparr>indexFileInitialized := True\<rparr>"
    with s1 have "s' = s\<lparr>fs_dir := fs_dir s1, indexFileInitialized := True\<rparr>" by simp
    then show ?thesis by (intro exI [of _ "fs_dir s1"] disjI2)
  qed
qed

lemma initializeIndex_keeps:
  "initializeIndex f s = (b, s') \<Longrightarrow>
   session_fields s s' \<and> macAddressCache s' = macAddressCache s \<and>
   wifiNetworkCount s' = wifiNetworkCount s \<and> fs_logs s' = fs_logs s \<and>
   fs_index s' = (case fs_index s of None \<Rightarrow> fs_index s' | Some bs \<Rightarrow> Some bs)"
proof -
  assume "initializeIndex f s = (b, s')"
  from initializeIndex_result [OF this] obtain d where
    "s' = s\<lparr>fs_dir := d\<rparr> \<or>
     (fs_index s = None \<and> s' = s\<lparr>fs_dir := d, fs_index := Some [], indexFileInitialized := True\<rparr>) \<or>
     s' = s\<lparr>fs_dir := d, indexFileInitialized := True\<rparr>" ..
  then show ?thesis
    by (elim disjE conjE) (simp_all add: session_fields_def split: option.splits)
qed

lemma index_ready_keeps:
  "index_ready f s = (b, s') \<Longrightarrow>
   session_fields s s' \<and> macAddressCache s' = macAddressCache s \<and>
   wifiNetworkCount s' = wifiNetworkCount s \<and> fs_logs s' = fs_logs s \<and>
   fs_index s' = (case fs_index s of None \<Rightarrow> fs_index s' | Some bs \<Rightarrow> Some bs)"
proof (cases "indexFileInitialized s")
  case True
  assume "index_ready f s = (b, s')"
  with True have "s' = s" by (simp add: index_ready_def)
  then show ?thesis by (simp add: session_fields_refl split: option.splits)
next
  case False
  assume "index_ready f s = (b, s')"
  with False have "initializeIndex f s = (b, s')" by (simp add: index_ready_def)
  then show ?thesis by (rule initializeIndex_keeps)
qed

lemma isMacInIndex_state:
  "isMacInIndex f mac s = (b, s') \<Longrightarrow> s' = snd (index_ready f s)"
  unfolding isMacInIndex_def
  by (cases "index_ready f s") (simp split: if_splits option.splits)

lemma isMacInIndex_keeps:
  "isMacInIndex f mac s = (b, s') \<Longrightarrow>
   session_fields s s' \<and> macAddressCache s' = macAddressCache s \<and>
   wifiNetworkCount s' = wifiNetworkCount s \<and> fs_logs s' = fs_logs s \<and>
   fs_index s' = (case fs_index s of None \<Rightarrow> fs_index s' | Some bs \<Rightarrow> Some bs)"
proof -
  assume "isMacInIndex f mac s = (b, s')"
  from isMacInIndex_state [OF this] have "index_ready f s = (fst (index_ready f s), s')" by simp
  then show ?thesis by (rule index_ready_keeps)
qed

lemma addMacToIndex_state:
  "addMacToIndex f mac s = (b, s') \<Longrightarrow>
   s' = snd (index_ready f s) \<or> (\<exists>i. s' = (snd (index_ready f s))\<lparr>fs_index := i\<rparr>)"
  unfolding addMacToIndex_def Let_def
  by (cases "index_ready f s") (auto split: if_splits option.splits)

lemma addMacToIndex_keeps:
  "addMacToIndex f mac s = (b, s') \<Longrightarrow>
   session_fields s s' \<and> macAddressCache s' = macAddressCache s \<and>
   wifiNetworkCount s' = wifiNetworkCount s \<and> fs_logs s' = fs_logs s"
proof -
  assume "addMacToIndex f mac s = (b, s')"
  note st = addMacToIndex_state [OF this]
  have "index_ready f s = (fst (index_ready f s), snd (index_ready f s))" by simp
  note k = index_ready_keeps [OF this]
  from st show ?thesis
  proof
    assume "s' = snd (index_ready f s)"
    with k show ?thesis by simp
  next
    assume "\<exists>i. s' = (snd (index_ready f s))\<lparr>fs_index := i\<rparr>"
    then obtain i where "s' = (snd (index_ready f s))\<lparr>fs_index := i\<rparr>" ..
    with k show ?thesis by (simp add: session_fields_def)
  qed
qed

lemma addMacToCache_keeps:
  "session_fields s (addMacToCache mac s) \<and>
   wifiNetworkCount (addMacToCache mac s) = wifiNetworkCount s \<and>
   fs_logs (addMacToCache mac s) = fs_logs s \<and> fs_index (addMacToCache mac s) = fs_index s \<and>
   fs_dir (addMacToCache mac s) = fs_dir s \<and>
   indexFileInitialized (addMacToCache mac s) = indexFileInitialized s"
  by (simp add: addMacToCache_def maintainCache_def session_fields_def)

lemma append_entry_session: "session_fields s (append_entry g s ne)"
proof -
  obtain b s1 where l: "isMacInIndex (lookup_call (snd ne)) (BSSIDstr (fst ne)) s = (b, s1)"
    by (cases "isMacInIndex (lookup_call (snd ne)) (BSSIDstr (fst ne)) s")
  obtain c s2 where a: "addMacToIndex (append_call (snd ne)) (BSSIDstr (fst ne))
      (addMacToCache (BSSIDstr (fst ne)) s1) = (c, s2)"
    by (cases "addMacToIndex (append_call (snd ne)) (BSSIDstr (fst ne)) (addMacToCache (BSSIDstr (fst ne)) s1)")
  have 1: "session_fields s s1" using isMacInIndex_keeps [OF l] by simp
  have 2: "session_fields s1 (addMacToCache (BSSIDstr (fst ne)) s1)"
    using addMacToCache_keeps [where s = s1] by simp
  have 3: "session_fields (addMacToCache (BSSIDstr (fst ne)) s1) s2"
    using addMacToIndex_keeps [OF a] by simp
  have 4: "session_fields s s2"
    using 1 2 3 by (blast intro: session_fields_trans)
  then have 5: "session_fields s (s2\<lparr>fs_logs := x, wifiNetworkCount := y\<rparr>)" for x y
    by (simp add: session_fields_def)
  show ?thesis
    using 1 4 5
    by (cases b; cases c) (simp_all add: append_entry_def Let_def l a session_fields_refl)
qed

lemma foldl_append_entry_session: "session_fields s (foldl (append_entry g) s nes)"
proof (induction nes arbitrary: s)
  case Nil
  show ?case by (simp add: session_fields_refl)
next
  case (Cons ne nes)
  from append_entry_session [of s g ne] Cons [of "append_entry g s ne"]
  show ?case by (auto intro: session_fields_trans)
qed

subsection \<open>Looking up and appending to the index\<close>

declare scan_index.simps [simp del]

text \<open>The scan finds exactly the records that are read.\<close>

lemma blocks_short: "length bs < BLOCK_SIZE \<Longrightarrow> blocks bs = []"
  by (simp add: blocks_def)

lemma blocks_step:
  assumes "BLOCK_SIZE \<le> length bs"
  shows "blocks bs = take BLOCK_SIZE bs # blocks (drop BLOCK_SIZE bs)"
proof -
  have p: "0 < BLOCK_SIZE" by (simp add: BLOCK_SIZE_def)
  from assms have n: "length bs div BLOCK_SIZE = Suc (length (drop BLOCK_SIZE bs) div BLOCK_SIZE)"
    using p by (simp add: le_div_geq)
  have "[0..<Suc m] = 0 # map Suc [0..<m]" for m
    by (simp add: upt_conv_Cons map_Suc_upt del: upt_Suc)
  then show ?thesis
    unfolding blocks_def n
    by (simp add: o_def add.commute del: upt_Suc)
qed

lemma scan_index_blocks:
  "scan_index short key bs \<longleftrightarrow>
     key \<in> set (case short of None \<Rightarrow> blocks bs | Some k \<Rightarrow> take k (blocks bs))"
proof (induction short key bs rule: scan_index.induct)
  case (1 short key bs)
  show ?case
  proof (cases "BLOCK_SIZE \<le> length bs")
    case False
    then show ?thesis
      by (subst scan_index.simps) (simp add: blocks_short split: option.splits)
  next
    case True
    note st = blocks_step [OF True]
    show ?thesis
    proof (cases "short = Some 0")
      case z: True
      with True show ?thesis by (subst scan_index.simps) simp
    next
      case nz: False
      show ?thesis
      proof (cases "take BLOCK_SIZE bs = key")
        case e: True
        with True nz show ?thesis
          by (subst scan_index.simps) (auto simp: st take_Cons' split: option.splits)
      next
        case ne: False
        from "1.IH" [OF True nz ne]
        have IH: "scan_index (map_option (\<lambda>k. k - 1) short) key (drop BLOCK_SIZE bs) \<longleftrightarrow>
          key \<in> set (case map_option (\<lambda>k. k - 1) short of None \<Rightarrow> blocks (drop BLOCK_SIZE bs)
             | Some k \<Rightarrow> take k (blocks (drop BLOCK_SIZE bs)))" .
        have "scan_index short key bs = scan_index (map_option (\<lambda>k. k - 1) short) key (drop BLOCK_SIZE bs)"
          using True nz ne by (subst scan_index.simps) simp
        also note IH
        also have "key \<in> set (case map_option (\<lambda>k. k - 1) short of None \<Rightarrow> blocks (drop BLOCK_SIZE bs)
             | Some k \<Rightarrow> take k (blocks (drop BLOCK_SIZE bs))) \<longleftrightarrow>
           key \<in> set (case short of None \<Rightarrow> blocks bs | Some k \<Rightarrow> take k (blocks bs))"
        proof (cases short)
          case None
          with ne show ?thesis by (auto simp: st)
        next
          case (Some k)
          with nz obtain j where k: "k = Suc j" by (cases k) auto
          with Some ne show ?thesis by (auto simp: st)
        qed
        finally show ?thesis .
      qed
    qed
  qed
qed


lemma index_ready_index_bytes: "index_bytes (snd (index_ready f s)) = index_bytes s"
proof -
  have "index_ready f s = (fst (index_ready f s), snd (index_ready f s))" by simp
  from index_ready_keeps [OF this]
  have "fs_index (snd (index_ready f s)) =
      (case fs_index s of None \<Rightarrow> fs_index (snd (index_ready f s)) | Some bs \<Rightarrow> Some bs)" by simp
  moreover have "fs_index s = None \<Longrightarrow> fs_index (snd (index_ready f s)) = None \<or>
      fs_index (snd (index_ready f s)) = Some []"
  proof (cases "indexFileInitialized s")
    case True
    assume "fs_index s = None"
    with True show ?thesis by (simp add: index_ready_def)
  next
    case False
    assume n: "fs_index s = None"
    have "initializeIndex f s = (fst (initializeIndex f s), snd (initializeIndex f s))" by simp
    from initializeIndex_result [OF this] obtain d where
      "snd (initializeIndex f s) = s\<lparr>fs_dir := d\<rparr> \<or>
       (fs_index s = None \<and> snd (initializeIndex f s) =
          s\<lparr>fs_dir := d, fs_index := Some [], indexFileInitialized := True\<rparr>) \<or>
       snd (initializeIndex f s) = s\<lparr>fs_dir := d, indexFileInitialized := True\<rparr>" ..
    with n False show ?thesis
      by (elim disjE conjE) (simp_all add: index_ready_def)
  qed
  ultimately show ?thesis
    by (cases "fs_index s") (auto simp: index_bytes_def)
qed

lemma isMacInIndex_eq:
  "isMacInIndex f mac s =
     (index_opens f s \<and> read_holds f mac (index_bytes s), snd (index_ready f s))"
proof -
  obtain r s1 where r: "index_ready f s = (r, s1)" by (cases "index_ready f s")
  have b: "index_bytes s1 = index_bytes s"
    using index_ready_index_bytes [of f s] r by simp
  show ?thesis
    unfolding isMacInIndex_def index_opens_def read_holds_def records_read_def r b [symmetric]
    by (cases "fs_index s1"; cases "macStringToBytes mac"; cases "short_read f")
      (simp_all add: index_bytes_def scan_index_blocks)
qed

lemma addMacToIndex_eq:
  assumes "macStringToBytes mac = Some key"
  shows "addMacToIndex f mac s =
     (if fst (index_ready f s) \<and> getFsStorage_ok f \<and> open_ok f
      then (BLOCK_SIZE \<le> write_len f,
            (snd (index_ready f s))\<lparr>fs_index :=
               Some (index_bytes s @ take (min (write_len f) BLOCK_SIZE) key)\<rparr>)
      else (False, snd (index_ready f s)))"
proof -
  obtain r s1 where r: "index_ready f s = (r, s1)" by (cases "index_ready f s")
  have b: "index_bytes s1 = index_bytes s"
    using index_ready_index_bytes [of f s] r by simp
  have m: "(min (write_len f) BLOCK_SIZE = BLOCK_SIZE) = (BLOCK_SIZE \<le> write_len f)" by auto
  show ?thesis
    unfolding addMacToIndex_def r b [symmetric] Let_def
    by (simp add: assms index_bytes_def m)
qed

lemma addMacToIndex_invalid:
  assumes "macStringToBytes mac = None"
  shows "fst (addMacToIndex f mac s) = False \<and>
         index_bytes (snd (addMacToIndex f mac s)) = index_bytes s"
proof -
  obtain r s1 where r: "index_ready f s = (r, s1)" by (cases "index_ready f s")
  have b: "index_bytes s1 = index_bytes s"
    using index_ready_index_bytes [of f s] r by simp
  show ?thesis
    unfolding addMacToIndex_def r Let_def
    using b by (simp add: assms index_bytes_def)
qed

text \<open>The cache plays no part in \<^verbatim>\<open>initializeIndex\<close>.\<close>

lemma addMacToCache_update:
  "addMacToCache mac s = s\<lparr>macAddressCache := macAddressCache (addMacToCache mac s)\<rparr>"
  by (simp add: addMacToCache_def maintainCache_def)

lemma index_ready_cache:
  "index_ready f (s\<lparr>macAddressCache := c\<rparr>) =
     (fst (index_ready f s), (snd (index_ready f s))\<lparr>macAddressCache := c\<rparr>)"
  unfolding index_ready_def initializeIndex_def checkFileSystem_def
  by simp

lemma index_ready_addMacToCache:
  "fst (index_ready f (addMacToCache mac s)) = fst (index_ready f s)"
  by (subst addMacToCache_update) (simp only: index_ready_cache fst_conv)

lemma index_writable_addMacToCache:
  "index_writable f (addMacToCache mac s) = index_writable f s"
  by (simp add: index_writable_def index_ready_addMacToCache)

lemma index_bytes_addMacToCache: "index_bytes (addMacToCache mac s) = index_bytes s"
  using addMacToCache_keeps [of s mac] by (simp add: index_bytes_def)

subsection \<open>One scan entry\<close>

lemma append_entry_skip: "\<not> entry_new s ne \<Longrightarrow>
   index_bytes (append_entry g s ne) = index_bytes s \<and>
   macAddressCache (append_entry g s ne) = macAddressCache s \<and>
   wifiNetworkCount (append_entry g s ne) = wifiNetworkCount s \<and>
   fs_logs (append_entry g s ne) = fs_logs s"
proof -
  assume h: "\<not> entry_new s ne"
  let ?s1 = "snd (index_ready (lookup_call (snd ne)) s)"
  have "index_ready (lookup_call (snd ne)) s = (fst (index_ready (lookup_call (snd ne)) s), ?s1)"
    by simp
  note k = index_ready_keeps [OF this] index_ready_index_bytes [of "lookup_call (snd ne)" s]
  from h have "append_entry g s ne = s \<or> append_entry g s ne = ?s1"
    unfolding entry_new_def append_entry_def Let_def isMacInIndex_eq by auto
  with k show ?thesis by auto
qed

lemma append_entry_new:
  assumes "entry_new s ne"
  shows "append_entry g s ne =
     (let mac = BSSIDstr (fst ne);
          r = addMacToIndex (append_call (snd ne)) mac
                (addMacToCache mac (snd (index_ready (lookup_call (snd ne)) s)))
      in if fst r \<and> print_ok (snd ne)
         then (snd r)\<lparr>fs_logs := (fs_logs (snd r))(filename (snd r) \<mapsto>
                   (case fs_logs (snd r) (filename (snd r)) of None \<Rightarrow> [] | Some ls \<Rightarrow> ls) @
                   [data_row g (fst ne)]),
                 wifiNetworkCount := wifiNetworkCount (snd r) + 1\<rparr>
         else snd r)"
proof -
  let ?mac = "BSSIDstr (fst ne)"
  let ?s1 = "snd (index_ready (lookup_call (snd ne)) s)"
  obtain b s3 where r: "addMacToIndex (append_call (snd ne)) ?mac (addMacToCache ?mac ?s1) = (b, s3)"
    by (cases "addMacToIndex (append_call (snd ne)) ?mac (addMacToCache ?mac ?s1)")
  from assms have l: "isMacInIndex (lookup_call (snd ne)) ?mac s = (False, ?s1)"
    unfolding isMacInIndex_eq entry_new_def by simp
  from assms have p: "isValidMacString ?mac" "SSID (fst ne) \<noteq> []" "\<not> isMacInCache ?mac s"
    by (simp_all add: entry_new_def)
  show ?thesis
    unfolding append_entry_def Let_def
    by (cases b) (simp_all add: p l r)
qed

lemma append_entry_new_fields:
  assumes "entry_new s ne"
  defines "mac \<equiv> BSSIDstr (fst ne)"
  defines "s1 \<equiv> snd (index_ready (lookup_call (snd ne)) s)"
  defines "fa \<equiv> append_call (snd ne)"
  shows "macAddressCache (append_entry g s ne) = macAddressCache (addMacToCache mac s)"
    and "wifiNetworkCount (append_entry g s ne) =
           (if index_writable fa s1 \<and> print_ok (snd ne) then wifiNetworkCount s + 1
            else wifiNetworkCount s)"
    and "fs_logs (append_entry g s ne) =
           (if index_writable fa s1 \<and> print_ok (snd ne)
            then (fs_logs s)(filename s \<mapsto>
                   (case fs_logs s (filename s) of None \<Rightarrow> [] | Some ls \<Rightarrow> ls) @ [data_row g (fst ne)])
            else fs_logs s)"
    and "index_bytes (append_entry g s ne) =
           (if fst (index_ready fa s1) \<and> getFsStorage_ok fa \<and> open_ok fa
            then index_bytes s @ take (min (write_len fa) BLOCK_SIZE) (parse_groups mac)
            else index_bytes s)"
proof -
  let ?s2 = "addMacToCache mac s1"
  let ?r = "addMacToIndex fa mac ?s2"
  from assms(1) have key: "macStringToBytes mac = Some (parse_groups mac)"
    by (simp add: entry_new_def mac_def macStringToBytes_def)
  have "index_ready (lookup_call (snd ne)) s = (fst (index_ready (lookup_call (snd ne)) s), s1)"
    by (simp add: s1_def)
  note k1 = index_ready_keeps [OF this]
  have c1: "macAddressCache s1 = macAddressCache s" using k1 by simp
  have b1: "index_bytes s1 = index_bytes s"
    unfolding s1_def by (rule index_ready_index_bytes)
  have k2: "session_fields s1 ?s2" "wifiNetworkCount ?s2 = wifiNetworkCount s1"
    "fs_logs ?s2 = fs_logs s1" "index_bytes ?s2 = index_bytes s1"
    using addMacToCache_keeps [of s1 mac] by (simp_all add: index_bytes_addMacToCache)
  have "?r = (fst ?r, snd ?r)" by simp
  note k3 = addMacToIndex_keeps [OF this]
  have cache: "macAddressCache (snd ?r) = macAddressCache (addMacToCache mac s)"
    using k3 c1 by (simp add: addMacToCache_def maintainCache_def)
  have cnt: "wifiNetworkCount (snd ?r) = wifiNetworkCount s" using k1 k2 k3 by simp
  have logs: "fs_logs (snd ?r) = fs_logs s" using k1 k2 k3 by simp
  have fn: "filename (snd ?r) = filename s" using k1 k2 k3 by (simp add: session_fields_def)
  have w: "fst ?r = index_writable fa s1"
    unfolding addMacToIndex_eq [OF key] index_writable_def
    by (auto simp add: index_ready_addMacToCache)
  have ib: "index_bytes (snd ?r) =
      (if fst (index_ready fa s1) \<and> getFsStorage_ok fa \<and> open_ok fa
       then index_bytes s @ take (min (write_len fa) BLOCK_SIZE) (parse_groups mac)
       else index_bytes s)"
    unfolding addMacToIndex_eq [OF key]
    using index_ready_index_bytes [of fa ?s2] k2(4) b1
    by (simp add: index_ready_addMacToCache index_bytes_def)
  note e = append_entry_new [OF assms(1), of g, unfolded Let_def, folded mac_def s1_def fa_def]
  show "macAddressCache (append_entry g s ne) = macAddressCache (addMacToCache mac s)"
    unfolding e using cache by simp
  show "wifiNetworkCount (append_entry g s ne) =
           (if index_writable fa s1 \<and> print_ok (snd ne) then wifiNetworkCount s + 1
            else wifiNetworkCount s)"
    unfolding e using cnt w by simp
  show "fs_logs (append_entry g s ne) =
           (if index_writable fa s1 \<and> print_ok (snd ne)
            then (fs_logs s)(filename s \<mapsto>
                   (case fs_logs s (filename s) of None \<Rightarrow> [] | Some ls \<Rightarrow> ls) @ [data_row g (fst ne)])
            else fs_logs s)"
    unfolding e using logs fn w by simp
  show "index_bytes (append_entry g s ne) =
           (if fst (index_ready fa s1) \<and> getFsStorage_ok fa \<and> open_ok fa
            then index_bytes s @ take (min (write_len fa) BLOCK_SIZE) (parse_groups mac)
            else index_bytes s)"
    unfolding e using ib by (simp add: index_bytes_def)
qed

lemma length_parse_groups:
  assumes "isValidMacString s"
  shows "length (parse_groups s) = BLOCK_SIZE"
proof -
  from assms have "length s = 17" by (simp add: isValidMacString_def)
  then obtain c0 c1 c2 c3 c4 c5 c6 c7 c8 c9 c10 c11 c12 c13 c14 c15 c16 where
    s: "s = [c0, c1, c2, c3, c4, c5, c6, c7, c8, c9, c10, c11, c12, c13, c14, c15, c16]"
    by (auto simp: eval_nat_numeral length_Suc_conv)
  show ?thesis unfolding s by (simp add: BLOCK_SIZE_def)
qed


lemma readable_read_holds:
  "index_readable f s \<Longrightarrow> read_holds f mac bs = index_holds mac bs"
  by (cases "macStringToBytes mac")
    (simp_all add: index_readable_def read_holds_def records_read_def index_holds_def)

subsection \<open>The index only grows\<close>

lemma append_entry_prefix: "prefix (index_bytes s) (index_bytes (append_entry g s ne))"
proof (cases "entry_new s ne")
  case True
  from append_entry_new_fields(4) [OF True, of g] show ?thesis by (simp split: if_splits)
next
  case False
  from append_entry_skip [OF False, of g] show ?thesis by simp
qed

lemma foldl_append_entry_prefix: "prefix (index_bytes s) (index_bytes (foldl (append_entry g) s nes))"
proof (induction nes arbitrary: s)
  case Nil
  show ?case by simp
next
  case (Cons ne nes)
  from append_entry_prefix [of s g ne] Cons [of "append_entry g s ne"]
  show ?case by (auto intro: prefix_order.trans)
qed

lemma append_to_file_prefix: "prefix (index_bytes s) (index_bytes (append_to_file f g n nets s))"
proof -
  obtain c s1 where c: "checkFileSystem f s = (c, s1)" by (cases "checkFileSystem f s")
  define s2 where "s2 = (if filename s1 = [] then create_filename g s1 else s1)"
  define s3 where "s3 = (if fs_logs s2 (filename s2) = None
      then s2\<lparr>fs_logs := (fs_logs s2)(filename s2 \<mapsto> [Banner, ColumnHeader])\<rparr> else s2)"
  from checkFileSystem_keeps [OF c] have i1: "index_bytes s1 = index_bytes s"
    by (simp add: index_bytes_def)
  have i2: "index_bytes s2 = index_bytes s"
    using i1 by (simp add: s2_def index_bytes_def create_filename_def)
  have i3: "index_bytes s3 = index_bytes s"
    using i2 by (simp add: s3_def index_bytes_def)
  have "append_to_file f g n nets s = s1\<lparr>returnToMenu := True\<rparr> \<or>
        append_to_file f g n nets s = s2\<lparr>returnToMenu := True\<rparr> \<or>
        append_to_file f g n nets s = foldl (append_entry g) s3 (take (nat n) nets)"
    unfolding append_to_file_def c Let_def s2_def s3_def
    by (cases c) auto
  then show ?thesis
  proof (elim disjE)
    assume "append_to_file f g n nets s = s1\<lparr>returnToMenu := True\<rparr>"
    with i1 show ?thesis by (simp add: index_bytes_def)
  next
    assume "append_to_file f g n nets s = s2\<lparr>returnToMenu := True\<rparr>"
    with i2 show ?thesis by (simp add: index_bytes_def)
  next
    assume "append_to_file f g n nets s = foldl (append_entry g) s3 (take (nat n) nets)"
    with foldl_append_entry_prefix [of s3 g "take (nat n) nets"] i3 show ?thesis by simp
  qed
qed

lemma fs_check_index_bytes: "index_bytes (snd (fs_check t v s)) = index_bytes s"
proof -
  obtain c s1 where c: "checkFileSystem (check_call t) s = (c, s1)"
    by (cases "checkFileSystem (check_call t) s")
  from checkFileSystem_keeps [OF c] have i: "index_bytes s1 = index_bytes s"
    by (simp add: index_bytes_def)
  have "index_bytes (snd (initializeIndex (check_call t) s1)) = index_bytes s1"
  proof (cases "indexFileInitialized s1")
    case True
    then show ?thesis by (simp add: initializeIndex_def)
  next
    case False
    with index_ready_index_bytes [of "check_call t" s1] show ?thesis
      by (simp add: index_ready_def)
  qed
  with c i show ?thesis
    by (cases c) (simp_all add: fs_check_def)
qed

lemma on_gps_data_prefix: "prefix (index_bytes s) (index_bytes (on_gps_data d t s))"
proof -
  have u: "index_bytes (set_position d g x) = index_bytes x"
    "index_bytes (dump_gps_data g x) = index_bytes x"
    "index_bytes (create_filename g x) = index_bytes x" for x g
    by (simp_all add: index_bytes_def set_position_def dump_gps_data_def create_filename_def Let_def)
  show ?thesis
    using append_to_file_prefix [of "set_position d (gps t) s" "file_call t" "gps t" "scan_amount t" "scan_nets t"]
    by (simp add: on_gps_data_def scan_networks_def u Let_def)
qed

lemma index_bytes_wardriving_end [simp]: "index_bytes (wardriving_end s) = index_bytes s"
  by (simp add: index_bytes_def wardriving_end_def)

lemma loop_iter_prefix: "prefix (index_bytes s) (index_bytes (state_of (loop_iter d t v s)))"
  using on_gps_data_prefix [of "snd (fs_check t v s)" d t] fs_check_index_bytes [of t v s]
  by (cases "fs_check t v s") (simp add: loop_iter_def wait_def state_of_def)

lemma run_loop_prefix: "prefix (index_bytes s) (index_bytes (state_of (run_loop d ts v s)))"
proof (induction ts arbitrary: v s)
  case Nil
  show ?case by (simp add: state_of_def)
next
  case (Cons t ts)
  show ?case
  proof (cases "loop_iter d t v s")
    case (Return r s1)
    with loop_iter_prefix [of s d t v] show ?thesis by (simp add: state_of_def)
  next
    case (Continue v1 s1)
    with loop_iter_prefix [of s d t v] Cons [of s1 v1] show ?thesis
      by (auto simp add: state_of_def intro: prefix_order.trans)
  qed
qed

text \<open>
  C3, as the code has it.  Handling a scan entry appends the six bytes of its address
  to the index exactly when the entry is new (well formed address, non-empty name,
  address not in the cache, and the index does not open for the lookup or none of the
  records read before a short read is the encoding of the address) and
  \<^verbatim>\<open>addMacToIndex\<close> succeeds.  The lookup finds an address exactly when the index
  opens and one of the records read before a short read is its encoding; when the
  index opens and every read is complete, that is exactly when one of the six-byte
  records of the index file is its encoding.  The bytes of the index before an entry, and before any run of the loop,
  are a prefix of the bytes after it: the index only grows at its end.
\<close>

theorem index_append_only:
  "((isValidMacString (BSSIDstr (fst ne)) \<and>
     index_bytes (append_entry g s ne) = index_bytes s @ parse_groups (BSSIDstr (fst ne))) =
    (entry_new s ne \<and>
     index_writable (append_call (snd ne)) (snd (index_ready (lookup_call (snd ne)) s)))) \<and>
   fst (isMacInIndex f mac s) = (index_opens f s \<and> read_holds f mac (index_bytes s)) \<and>
   (index_readable f s \<longrightarrow> fst (isMacInIndex f mac s) = index_holds mac (index_bytes s)) \<and>
   prefix (index_bytes s) (index_bytes (append_entry g s ne)) \<and>
   prefix (index_bytes s) (index_bytes (state_of (run_loop d ts v s)))"
proof (intro conjI impI)
  let ?mac = "BSSIDstr (fst ne)"
  let ?fa = "append_call (snd ne)"
  let ?s1 = "snd (index_ready (lookup_call (snd ne)) s)"
  show "(isValidMacString ?mac \<and> index_bytes (append_entry g s ne) = index_bytes s @ parse_groups ?mac) =
    (entry_new s ne \<and> index_writable ?fa ?s1)"
  proof (cases "entry_new s ne")
    case True
    then have v: "isValidMacString ?mac" by (simp add: entry_new_def)
    note l = length_parse_groups [OF v]
    have t: "take (min (write_len ?fa) BLOCK_SIZE) (parse_groups ?mac) = parse_groups ?mac
        \<longleftrightarrow> BLOCK_SIZE \<le> write_len ?fa"
      using l by (auto simp: BLOCK_SIZE_def min_def)
    have ne: "parse_groups ?mac \<noteq> []" using l by (auto simp: BLOCK_SIZE_def)
    from append_entry_new_fields(4) [OF True, of g] True v t ne show ?thesis
      by (auto simp add: index_writable_def)
  next
    case False
    show ?thesis
    proof (cases "isValidMacString ?mac")
      case v: True
      from length_parse_groups [OF v] have "parse_groups ?mac \<noteq> []" by (auto simp: BLOCK_SIZE_def)
      with append_entry_skip [OF False, of g] False show ?thesis by simp
    next
      case v: False
      with False show ?thesis by simp
    qed
  qed
next
  show "fst (isMacInIndex f mac s) = (index_opens f s \<and> read_holds f mac (index_bytes s))"
    by (simp add: isMacInIndex_eq)
next
  assume "index_readable f s"
  then show "fst (isMacInIndex f mac s) = index_holds mac (index_bytes s)"
    by (simp add: isMacInIndex_eq readable_read_holds) (simp add: index_readable_def)
next
  show "prefix (index_bytes s) (index_bytes (append_entry g s ne))"
    by (rule append_entry_prefix)
next
  show "prefix (index_bytes s) (index_bytes (state_of (run_loop d ts v s)))"
    by (rule run_loop_prefix)
qed

subsection \<open>The rounds of the loop\<close>

lemma fs_check_keeps:
  "fs_check t v s = (v', s') \<Longrightarrow> count v' = count v \<and> session_fields s s'"
proof -
  assume h: "fs_check t v s = (v', s')"
  obtain c s1 where c: "checkFileSystem (check_call t) s = (c, s1)"
    by (cases "checkFileSystem (check_call t) s")
  obtain b s2 where i: "initializeIndex (check_call t) s1 = (b, s2)"
    by (cases "initializeIndex (check_call t) s1")
  from checkFileSystem_keeps [OF c] initializeIndex_keeps [OF i]
  have "session_fields s s1" "session_fields s s2"
    by (auto intro: session_fields_trans)
  with h c i show ?thesis
    unfolding fs_check_def
    by (cases c) (auto simp: session_fields_refl split: if_splits)
qed

lemma wait_cases:
  "wait t v s = (if esc_wait t \<or> returnToMenu s then Return Escape (wardriving_end s) else Continue v s)"
  by (simp add: wait_def)

lemma loop_iter_GpsNotFound:
  "loop_iter d t v s = Return GpsNotFound s' \<Longrightarrow> \<not> gps_available t \<and> count v > 5"
proof -
  assume h: "loop_iter d t v s = Return GpsNotFound s'"
  obtain v1 s1 where f: "fs_check t v s = (v1, s1)" by (cases "fs_check t v s")
  from fs_check_keeps [OF f] have "count v1 = count v" by simp
  with h f show ?thesis
    unfolding loop_iter_def wait_def by (auto split: if_splits)
qed

lemma loop_iter_Continue:
  "loop_iter d t v s = Continue v' s' \<Longrightarrow>
   count v' = (if gps_available t then 0 else count v + 1)"
proof -
  assume h: "loop_iter d t v s = Continue v' s'"
  obtain v1 s1 where f: "fs_check t v s = (v1, s1)" by (cases "fs_check t v s")
  from fs_check_keeps [OF f] have "count v1 = count v" by simp
  with h f show ?thesis
    unfolding loop_iter_def wait_def by (auto split: if_splits)
qed

lemma loop_iter_quiet:
  assumes "\<not> gps_available t" "\<not> esc_top t" "\<not> esc_wait t" "\<not> returnToMenu s"
  shows "if count v > 5 then \<exists>s'. loop_iter d t v s = Return GpsNotFound s'
         else \<exists>v' s'. loop_iter d t v s = Continue v' s' \<and> count v' = count v + 1 \<and>
                \<not> returnToMenu s'"
proof -
  obtain v1 s1 where f: "fs_check t v s = (v1, s1)" by (cases "fs_check t v s")
  from fs_check_keeps [OF f] have "count v1 = count v" "returnToMenu s1 = returnToMenu s"
    by (simp_all add: session_fields_def)
  with assms f show ?thesis
    unfolding loop_iter_def wait_def by simp
qed

lemma run_loop_quiet:
  assumes "\<forall>t\<in>set ts. \<not> gps_available t \<and> \<not> esc_top t \<and> \<not> esc_wait t" "\<not> returnToMenu s"
  shows "(ts \<noteq> [] \<and> count v + length ts \<ge> 7 \<longrightarrow> (\<exists>s'. run_loop d ts v s = Return GpsNotFound s')) \<and>
         (count v + length ts < 7 \<longrightarrow>
            (\<exists>v' s'. run_loop d ts v s = Continue v' s' \<and> count v' = count v + length ts))"
  using assms
proof (induction ts arbitrary: v s)
  case Nil
  then show ?case by simp
next
  case (Cons t ts)
  then have q: "\<not> gps_available t" "\<not> esc_top t" "\<not> esc_wait t" by simp_all
  show ?case
  proof (cases "count v > 5")
    case True
    with loop_iter_quiet [OF q Cons.prems(2), of v d] show ?thesis by auto
  next
    case False
    with loop_iter_quiet [OF q Cons.prems(2), of v d] obtain v' s' where
      st: "loop_iter d t v s = Continue v' s'" "count v' = count v + 1" "\<not> returnToMenu s'"
      by auto
    from Cons.IH [of s' v'] Cons.prems(1) st(3)
    have IH: "(ts \<noteq> [] \<and> count v' + length ts \<ge> 7 \<longrightarrow> (\<exists>s''. run_loop d ts v' s' = Return GpsNotFound s'')) \<and>
         (count v' + length ts < 7 \<longrightarrow>
            (\<exists>v'' s''. run_loop d ts v' s' = Continue v'' s'' \<and> count v'' = count v' + length ts))"
      by simp
    show ?thesis
    proof (cases "ts = []")
      case True
      with False st show ?thesis by simp
    next
      case nonempty: False
      with IH st show ?thesis by simp
    qed
  qed
qed

text \<open>An exit for want of GPS data ends a stretch of rounds without data.\<close>

lemma run_loop_GpsNotFound:
  "run_loop d ts v s = Return GpsNotFound s' \<Longrightarrow>
   \<exists>pre us rest. ts = pre @ us @ rest \<and> (\<forall>t\<in>set us. \<not> gps_available t) \<and>
     ((pre = [] \<and> count v + length us \<ge> 7) \<or> length us \<ge> 7)"
proof (induction ts arbitrary: v s)
  case Nil
  then show ?case by simp
next
  case (Cons t ts)
  show ?case
  proof (cases "loop_iter d t v s")
    case (Return r s1)
    with Cons.prems have "loop_iter d t v s = Return GpsNotFound s'" by simp
    from loop_iter_GpsNotFound [OF this] have "\<not> gps_available t" "count v > 5" by simp_all
    then have "t # ts = [] @ [t] @ ts \<and> (\<forall>x\<in>set [t]. \<not> gps_available x) \<and>
       (([]::'d tick list) = [] \<and> count v + length [t] \<ge> 7)" by simp
    then show ?thesis by blast
  next
    case (Continue v1 s1)
    with Cons.prems have "run_loop d ts v1 s1 = Return GpsNotFound s'" by simp
    from Cons.IH [OF this] obtain pre us rest where
      d: "ts = pre @ us @ rest" "\<forall>t\<in>set us. \<not> gps_available t"
         "(pre = [] \<and> count v1 + length us \<ge> 7) \<or> length us \<ge> 7" by blast
    note c = loop_iter_Continue [OF Continue]
    show ?thesis
    proof (cases "length us \<ge> 7")
      case True
      with d have "t # ts = (t # pre) @ us @ rest \<and> (\<forall>t\<in>set us. \<not> gps_available t) \<and> length us \<ge> 7"
        by simp
      then show ?thesis by blast
    next
      case False
      with d(3) have p: "pre = []" "count v1 + length us \<ge> 7" by simp_all
      with False c have na: "\<not> gps_available t" by (auto split: if_splits)
      with c p d have "t # ts = [] @ (t # us) @ rest \<and> (\<forall>x\<in>set (t # us). \<not> gps_available x) \<and>
        (([]::'d tick list) = [] \<and> count v + length (t # us) \<ge> 7)" by simp
      then show ?thesis by blast
    qed
  qed
qed

lemma run_loop_append:
  "run_loop d (ts @ ts') v s =
     (case run_loop d ts v s of Return r s' \<Rightarrow> Return r s' | Continue v' s' \<Rightarrow> run_loop d ts' v' s')"
  by (induction ts arbitrary: v s) (simp_all split: step.splits)

lemma loop_iter_Continue_menu: "loop_iter d t v s = Continue v' s' \<Longrightarrow> \<not> returnToMenu s'"
proof -
  assume h: "loop_iter d t v s = Continue v' s'"
  obtain v1 s1 where f: "fs_check t v s = (v1, s1)" by (cases "fs_check t v s")
  from h f show ?thesis
    unfolding loop_iter_def wait_def by (auto split: if_splits)
qed

lemma run_loop_Continue_menu:
  "run_loop d ts v s = Continue v' s' \<Longrightarrow> \<not> returnToMenu s \<Longrightarrow> \<not> returnToMenu s'"
proof (induction ts arbitrary: v s)
  case Nil
  then show ?case by simp
next
  case (Cons t ts)
  show ?case
  proof (cases "loop_iter d t v s")
    case (Return r s1)
    with Cons.prems show ?thesis by simp
  next
    case (Continue v1 s1)
    from loop_iter_Continue_menu [OF Continue] Cons.prems Continue Cons.IH [of v1 s1]
    show ?thesis by simp
  qed
qed

text \<open>
  C6, as the code has it.  \<^verbatim>\<open>count\<close> is tested with \<^verbatim>\<open>count > 5\<close> before it is
  incremented, so the loop ends with "GPS not Found!" in the seventh consecutive round
  without serial data: whenever the loop is still running, seven further rounds
  without data (and without a key press) end it for this reason; an exit for this
  reason is always preceded by at least seven consecutive rounds without data; and
  while every round has data the loop never ends for this reason.
\<close>

theorem gps_not_found_after_seven:
  "(loop d pre s0 = Continue v s \<and> length us = 7 \<and>
    (\<forall>t\<in>set us. \<not> gps_available t \<and> \<not> esc_top t \<and> \<not> esc_wait t) \<longrightarrow>
      (\<exists>s'. loop d (pre @ us) s0 = Return GpsNotFound s')) \<and>
   (loop d ts s0 = Return GpsNotFound s' \<longrightarrow>
      (\<exists>pre us rest. ts = pre @ us @ rest \<and> length us \<ge> 7 \<and> (\<forall>t\<in>set us. \<not> gps_available t))) \<and>
   ((\<forall>t\<in>set ts. gps_available t) \<longrightarrow> exit_of (loop d ts s0) \<noteq> Some GpsNotFound)"
proof (intro conjI impI)
  assume h: "loop d pre s0 = Continue v s \<and> length us = 7 \<and>
    (\<forall>t\<in>set us. \<not> gps_available t \<and> \<not> esc_top t \<and> \<not> esc_wait t)"
  then have "us \<noteq> []" "count v + length us \<ge> 7" by auto
  moreover from h have m: "\<not> returnToMenu s"
    unfolding loop_def by (auto dest: run_loop_Continue_menu)
  ultimately have "\<exists>s'. run_loop d us v s = Return GpsNotFound s'"
    using run_loop_quiet [of us s v d] h by blast
  with h show "\<exists>s'. loop d (pre @ us) s0 = Return GpsNotFound s'"
    by (simp add: loop_def run_loop_append)
next
  assume "loop d ts s0 = Return GpsNotFound s'"
  from run_loop_GpsNotFound [OF this [unfolded loop_def]]
  show "\<exists>pre us rest. ts = pre @ us @ rest \<and> length us \<ge> 7 \<and> (\<forall>t\<in>set us. \<not> gps_available t)"
    by auto
next
  assume a: "\<forall>t\<in>set ts. gps_available t"
  show "exit_of (loop d ts s0) \<noteq> Some GpsNotFound"
  proof
    assume "exit_of (loop d ts s0) = Some GpsNotFound"
    then obtain s' where "loop d ts s0 = Return GpsNotFound s'"
      by (auto simp: exit_of_def split: step.splits)
    from run_loop_GpsNotFound [OF this [unfolded loop_def]] obtain pre us rest where
      "ts = pre @ us @ rest" "\<forall>t\<in>set us. \<not> gps_available t" "length us \<ge> 7" by auto
    with a show False by (cases us) auto
  qed
qed

theorem gps_not_found_after_seven_witness:
  "exit_of (loop plain_ops ([data_tick] @ replicate 7 quiet_tick) (initial True None Map.empty)) =
     Some GpsNotFound \<and>
   exit_of (loop plain_ops (replicate 9 data_tick) (initial True None Map.empty)) \<noteq> Some GpsNotFound \<and>
   (\<exists>pre us rest. [data_tick] @ replicate 7 quiet_tick = pre @ us @ rest \<and> 7 \<le> length us \<and>
      list_all (\<lambda>t. \<not> gps_available t) us)"
proof -
  let ?d = "plain_ops"
  let ?s = "initial True None Map.empty"
  have q: "\<forall>t\<in>set (replicate 7 quiet_tick). \<not> gps_available t \<and> \<not> esc_top t \<and> \<not> esc_wait t"
    by (simp add: quiet_tick_def)
  have a: "\<forall>t\<in>set (replicate 9 data_tick). gps_available t"
    by (simp add: data_tick_def quiet_tick_def)
  have "exit_of (loop ?d [data_tick] ?s) = None" by code_simp
  then obtain v s where r: "loop ?d [data_tick] ?s = Continue v s"
    by (cases "loop ?d [data_tick] ?s") (simp_all add: exit_of_def)
  from gps_not_found_after_seven [where d = ?d and pre = "[data_tick]" and ?s0.0 = ?s
      and v = v and s = s and us = "replicate 7 quiet_tick", THEN conjunct1] q r
  have 1: "\<exists>s'. loop ?d ([data_tick] @ replicate 7 quiet_tick) ?s = Return GpsNotFound s'" by simp
  from gps_not_found_after_seven [where d = ?d and ts = "replicate 9 data_tick" and ?s0.0 = ?s,
      THEN conjunct2, THEN conjunct2] a
  have 2: "exit_of (loop ?d (replicate 9 data_tick) ?s) \<noteq> Some GpsNotFound" by simp
  from 1 obtain s' where x: "loop ?d ([data_tick] @ replicate 7 quiet_tick) ?s = Return GpsNotFound s'" ..
  from gps_not_found_after_seven [where d = ?d and ts = "[data_tick] @ replicate 7 quiet_tick"
      and ?s0.0 = ?s and s' = s', THEN conjunct2, THEN conjunct1] x
  have 3: "\<exists>pre us rest. [data_tick] @ replicate 7 quiet_tick = pre @ us @ rest \<and> 7 \<le> length us \<and>
      list_all (\<lambda>t. \<not> gps_available t) us"
    by (simp add: list_all_iff)
  from 1 2 3 show ?thesis
    by (auto simp: exit_of_def)
qed

text \<open>
  C6 as stated fails: six consecutive rounds without data are more than five, yet the
  loop is still running after them and after a following round with data.
\<close>

theorem six_quiet_rounds_survive:
  "exit_of (loop plain_ops (replicate 6 quiet_tick @ [data_tick]) (initial True None Map.empty)) = None"
  by code_simp

subsection \<open>The file name\<close>

declare decimal.simps [simp del]

lemma dg_0: "dg 0 = CHR ''0''"
  by code_simp

lemma decimal_digit: "n < 10 \<Longrightarrow> decimal n = [dg n]"
  by (subst decimal.simps) (simp add: dg_def)

lemma decimal_step: "10 \<le> n \<Longrightarrow> decimal n = decimal (n div 10) @ [dg (n mod 10)]"
  by (subst decimal.simps) (simp add: dg_def)

lemma decimal_2: "10 \<le> n \<Longrightarrow> n < 100 \<Longrightarrow> decimal n = [dg (n div 10), dg (n mod 10)]"
  by (simp add: decimal_step decimal_digit)

lemma decimal_4:
  assumes "1000 \<le> n" "n < 10000"
  shows "decimal n = [dg (n div 1000), dg (n div 100 mod 10), dg (n div 10 mod 10), dg (n mod 10)]"
proof -
  have a: "n div 10 div 10 = n div 100" "n div 10 div 10 div 10 = n div 1000"
    by (simp_all add: div_mult2_eq [symmetric])
  from assms have b: "10 \<le> n" "10 \<le> n div 10" "10 \<le> n div 100" "n div 1000 < 10" by simp_all
  have "decimal n = decimal (n div 10) @ [dg (n mod 10)]"
    using b(1) by (rule decimal_step)
  also have "decimal (n div 10) = decimal (n div 100) @ [dg (n div 10 mod 10)]"
    using decimal_step [OF b(2)] a by simp
  also have "decimal (n div 100) = decimal (n div 1000) @ [dg (n div 100 mod 10)]"
    using decimal_step [OF b(3)] a div_mult2_eq [of n 100 10, symmetric] by simp
  also have "decimal (n div 1000) = [dg (n div 1000)]"
    using b(4) by (rule decimal_digit)
  finally show ?thesis by simp
qed

lemma fmt_02d_small: "n < 100 \<Longrightarrow> fmt_0d 2 n = [dg (n div 10), dg (n mod 10)]"
proof (cases "n < 10")
  case True
  then show ?thesis by (simp add: fmt_0d_def decimal_digit dg_0)
next
  case False
  assume "n < 100"
  with False show ?thesis by (simp add: fmt_0d_def decimal_2)
qed

lemma fmt_02d_year:
  "1000 \<le> n \<Longrightarrow> n < 10000 \<Longrightarrow>
   fmt_0d 2 n = [dg (n div 1000), dg (n div 100 mod 10), dg (n div 10 mod 10), dg (n mod 10)]"
  by (simp add: fmt_0d_def decimal_4)

lemma filename_create_filename [simp]:
  "filename (create_filename g s) = timestamp g @ ''_wardriving.csv''"
  by (simp add: create_filename_def)

lemma append_to_file_filename:
  "filename (append_to_file f g n nets s) =
     (if filename s = [] \<and> getFsStorage_ok f \<and> (fs_dir s \<or> mkdir_ok f)
      then timestamp g @ ''_wardriving.csv'' else filename s)"
proof -
  obtain c s1 where c: "checkFileSystem f s = (c, s1)" by (cases "checkFileSystem f s")
  from checkFileSystem_keeps [OF c] have f1: "filename s1 = filename s"
    by (simp add: session_fields_def)
  have cv: "c \<longleftrightarrow> getFsStorage_ok f \<and> (fs_dir s \<or> mkdir_ok f)"
    using c unfolding checkFileSystem_def by (auto split: if_splits)
  have fold: "filename (foldl (append_entry g) x ys) = filename x" for x ys
    using foldl_append_entry_session [of x g ys] by (simp add: session_fields_def)
  show ?thesis
  proof (cases c)
    case False
    with c f1 cv show ?thesis by (simp add: append_to_file_def)
  next
    case True
    with c cv have ok: "getFsStorage_ok f" by simp
    show ?thesis
      using c True ok f1 cv
      by (simp add: append_to_file_def Let_def fold)
  qed
qed

lemma on_gps_data_filename:
  "filename (on_gps_data d t s) =
     (if filename s \<noteq> [] then filename s
      else if location_isUpdated (gps t)
      then (if scan_amount t \<noteq> 0 \<and> getFsStorage_ok (file_call t) \<and> (fs_dir s \<or> mkdir_ok (file_call t))
            then timestamp (gps t) @ ''_wardriving.csv'' else [])
      else (if CURRENT_YEAR \<le> date_year (gps t) \<and> date_year (gps t) < CURRENT_YEAR + 5
            then timestamp (gps t) @ ''_wardriving.csv'' else []))"
proof (cases "location_isUpdated (gps t)")
  case True
  have "filename (set_position d (gps t) s) = filename s" "fs_dir (set_position d (gps t) s) = fs_dir s"
    by (simp_all add: set_position_def Let_def)
  with True show ?thesis
    by (auto simp add: on_gps_data_def scan_networks_def append_to_file_filename)
next
  case False
  have "filename (dump_gps_data (gps t) s) = filename s"
    by (simp add: dump_gps_data_def)
  with False show ?thesis
    by (auto simp add: on_gps_data_def Let_def)
qed

lemma filename_wardriving_end [simp]: "filename (wardriving_end s) = filename s"
  by (simp add: wardriving_end_def)

lemma loop_iter_state:
  "state_of (loop_iter d t v s) =
     (if esc_top t \<or> returnToMenu s then wardriving_end s
      else let s1 = snd (fs_check t v s)
           in if gps_available t
              then (let s2 = on_gps_data d t s1
                    in if esc_wait t \<or> returnToMenu s2 then wardriving_end s2 else s2)
              else if count (fst (fs_check t v s)) > 5 then wardriving_end s1
              else if esc_wait t \<or> returnToMenu s1 then wardriving_end s1 else s1)"
  by (cases "fs_check t v s") (simp add: loop_iter_def wait_def state_of_def Let_def)

lemma fs_check_snd: "session_fields s (snd (fs_check t v s))"
  using fs_check_keeps [of t v s "fst (fs_check t v s)" "snd (fs_check t v s)"] by simp

lemma fs_dir_fs_check: "fs_dir s \<Longrightarrow> fs_dir (snd (fs_check t v s))"
proof -
  assume d: "fs_dir s"
  obtain c s1 where c: "checkFileSystem (check_call t) s = (c, s1)"
    by (cases "checkFileSystem (check_call t) s")
  obtain b s2 where i: "initializeIndex (check_call t) s1 = (b, s2)"
    by (cases "initializeIndex (check_call t) s1")
  from checkFileSystem_result [OF c] d have d1: "fs_dir s1" by auto
  from i d1 have "fs_dir s2"
    unfolding initializeIndex_def checkFileSystem_def by (auto split: if_splits)
  with c i d d1 show ?thesis
    by (cases c) (simp_all add: fs_check_def)
qed

lemma loop_iter_filename:
  "filename (state_of (loop_iter d t v s)) =
     (if esc_top t \<or> returnToMenu s \<or> \<not> gps_available t then filename s
      else filename (on_gps_data d t (snd (fs_check t v s))))"
  using fs_check_snd [of s t v]
  by (simp add: loop_iter_state Let_def session_fields_def)

lemma loop_iter_filename_set:
  "filename s \<noteq> [] \<Longrightarrow> filename (state_of (loop_iter d t v s)) = filename s"
  using fs_check_snd [of s t v]
  by (simp add: loop_iter_filename on_gps_data_filename session_fields_def)

lemma loop_iter_filename_unset:
  "filename s = [] \<Longrightarrow>
   filename (state_of (loop_iter d t v s)) = [] \<or>
   filename (state_of (loop_iter d t v s)) = timestamp (gps t) @ ''_wardriving.csv''"
  using fs_check_snd [of s t v]
  by (simp add: loop_iter_filename on_gps_data_filename session_fields_def)

lemma run_loop_filename_set:
  "filename s \<noteq> [] \<Longrightarrow> filename (state_of (run_loop d ts v s)) = filename s"
proof (induction ts arbitrary: v s)
  case Nil
  then show ?case by (simp add: state_of_def)
next
  case (Cons t ts)
  from loop_iter_filename_set [OF Cons.prems, of d t v]
  have f: "filename (state_of (loop_iter d t v s)) = filename s" .
  show ?case
  proof (cases "loop_iter d t v s")
    case (Return r s1)
    with f show ?thesis by (simp add: state_of_def)
  next
    case (Continue v1 s1)
    with f Cons.prems have "filename s1 \<noteq> []" "filename s1 = filename s" by (simp_all add: state_of_def)
    with Cons.IH [of s1 v1] Continue show ?thesis by simp
  qed
qed

lemma loop_iter_filename_unset_eq:
  "filename s = [] \<Longrightarrow>
   filename (state_of (loop_iter d t v s)) =
     (if name_due t v s then timestamp (gps t) @ ''_wardriving.csv'' else [])"
  using fs_check_snd [of s t v]
  by (simp add: loop_iter_filename on_gps_data_filename session_fields_def name_due_def)

lemma name_due_may_name: "name_due t v s \<Longrightarrow> may_name t"
  by (simp add: name_due_def may_name_def split: if_splits)

lemma run_loop_no_name:
  "filename s = [] \<Longrightarrow> \<forall>t\<in>set ts. \<not> may_name t \<Longrightarrow>
   filename (state_of (run_loop d ts v s)) = []"
proof (induction ts arbitrary: v s)
  case Nil
  then show ?case by (simp add: state_of_def)
next
  case (Cons t ts)
  from Cons.prems name_due_may_name [of t v s] have "\<not> name_due t v s" by auto
  with loop_iter_filename_unset_eq [OF Cons.prems(1), of d t v]
  have f: "filename (state_of (loop_iter d t v s)) = []" by simp
  show ?case
  proof (cases "loop_iter d t v s")
    case (Return r s1)
    with f show ?thesis by (simp add: state_of_def)
  next
    case (Continue v1 s1)
    with f have "filename s1 = []" by (simp add: state_of_def)
    from Cons.IH [OF this, of v1] Cons.prems(2) Continue show ?thesis by simp
  qed
qed

lemma run_loop_first_name:
  assumes "run_loop d ts v s = Continue v1 s1" "filename s1 = []" "name_due t v1 s1"
  shows "filename (state_of (run_loop d (ts @ t # ts') v s)) =
           timestamp (gps t) @ ''_wardriving.csv''"
proof -
  from loop_iter_filename_unset_eq [OF assms(2), of d t v1] assms(3)
  have f: "filename (state_of (loop_iter d t v1 s1)) = timestamp (gps t) @ ''_wardriving.csv''"
    by simp
  show ?thesis
  proof (cases "loop_iter d t v1 s1")
    case (Return r s2)
    with f assms(1) show ?thesis by (simp add: run_loop_append state_of_def)
  next
    case (Continue v2 s2)
    with f have e: "filename s2 = timestamp (gps t) @ ''_wardriving.csv''"
      by (simp add: state_of_def)
    then have n: "filename s2 \<noteq> []" by simp
    from run_loop_filename_set [OF n, of d ts' v2] e Continue assms(1) show ?thesis
      by (simp add: run_loop_append)
  qed
qed

text \<open>
  C1, as the code has it.  The six fields are printed with \<^verbatim>\<open>%02d\<close>, a minimum width,
  and \<^verbatim>\<open>gps.date.year()\<close> is the full year, so for a year from 1000 to 9999 and the
  other fields below 100 the name is \<^verbatim>\<open>YYYYMMDD_HHMMSS_wardriving.csv\<close>.  While the name
  is empty, a round of \<^verbatim>\<open>loop\<close> derives it exactly when the round is not left at its top,
  serial data is available and either the location is updated, the scan is not empty
  and the storage and its log directory are there, or the location is not updated and
  the year is one of the five from \<^verbatim>\<open>CURRENT_YEAR\<close> on; the name then comes from the date
  and time of that round.  Rounds none of which can do so leave the name empty, so a
  session may end without a name.  The first round that derives the name fixes it for
  all the rounds that follow: once the name is not empty no round changes it, and a
  derived name is not empty.  So the name is derived at most once per session.
\<close>

theorem filename_derived_once:
  "(1000 \<le> date_year g \<and> date_year g < 10000 \<and> date_month g < 100 \<and> date_day g < 100 \<and>
    time_hour g < 100 \<and> time_minute g < 100 \<and> time_second g < 100 \<longrightarrow>
      filename (create_filename g s) =
        [dg (date_year g div 1000), dg (date_year g div 100 mod 10),
         dg (date_year g div 10 mod 10), dg (date_year g mod 10),
         dg (date_month g div 10), dg (date_month g mod 10),
         dg (date_day g div 10), dg (date_day g mod 10), CHR ''_'',
         dg (time_hour g div 10), dg (time_hour g mod 10),
         dg (time_minute g div 10), dg (time_minute g mod 10),
         dg (time_second g div 10), dg (time_second g mod 10)] @ ''_wardriving.csv'') \<and>
   (filename s = [] \<longrightarrow>
      filename (state_of (loop_iter d t v s)) =
        (if name_due t v s then filename (create_filename (gps t) s) else [])) \<and>
   (filename s = [] \<and> (\<forall>t\<in>set ts. \<not> may_name t) \<longrightarrow>
      filename (state_of (run_loop d ts v s)) = []) \<and>
   (run_loop d ts v s = Continue v1 s1 \<and> filename s1 = [] \<and> name_due t v1 s1 \<longrightarrow>
      filename (state_of (run_loop d (ts @ t # ts') v s)) = filename (create_filename (gps t) s1)) \<and>
   (filename s \<noteq> [] \<longrightarrow> filename (state_of (run_loop d ts v s)) = filename s) \<and>
   (filename (state_of (loop d ts s0)) \<noteq> [] \<longrightarrow>
      filename (state_of (loop d (ts @ ts') s0)) = filename (state_of (loop d ts s0))) \<and>
   filename (create_filename g s) \<noteq> []"
proof (intro conjI impI)
  assume "1000 \<le> date_year g \<and> date_year g < 10000 \<and> date_month g < 100 \<and> date_day g < 100 \<and>
    time_hour g < 100 \<and> time_minute g < 100 \<and> time_second g < 100"
  then show "filename (create_filename g s) =
        [dg (date_year g div 1000), dg (date_year g div 100 mod 10),
         dg (date_year g div 10 mod 10), dg (date_year g mod 10),
         dg (date_month g div 10), dg (date_month g mod 10),
         dg (date_day g div 10), dg (date_day g mod 10), CHR ''_'',
         dg (time_hour g div 10), dg (time_hour g mod 10),
         dg (time_minute g div 10), dg (time_minute g mod 10),
         dg (time_second g div 10), dg (time_second g mod 10)] @ ''_wardriving.csv''"
    by (simp add: timestamp_def fmt_02d_small fmt_02d_year)
next
  assume "filename s = []"
  from loop_iter_filename_unset_eq [OF this, of d t v]
  show "filename (state_of (loop_iter d t v s)) =
      (if name_due t v s then filename (create_filename (gps t) s) else [])"
    by simp
next
  assume "filename s = [] \<and> (\<forall>t\<in>set ts. \<not> may_name t)"
  then show "filename (state_of (run_loop d ts v s)) = []"
    using run_loop_no_name [of s ts d v] by simp
next
  assume "run_loop d ts v s = Continue v1 s1 \<and> filename s1 = [] \<and> name_due t v1 s1"
  then show "filename (state_of (run_loop d (ts @ t # ts') v s)) =
      filename (create_filename (gps t) s1)"
    using run_loop_first_name [of d ts v s v1 s1 t ts'] by simp
next
  assume "filename s \<noteq> []"
  then show "filename (state_of (run_loop d ts v s)) = filename s"
    by (rule run_loop_filename_set)
next
  assume h: "filename (state_of (loop d ts s0)) \<noteq> []"
  show "filename (state_of (loop d (ts @ ts') s0)) = filename (state_of (loop d ts s0))"
  proof (cases "loop d ts s0")
    case (Return r s1)
    then show ?thesis by (simp add: loop_def run_loop_append)
  next
    case (Continue v1 s1)
    with h have "filename s1 \<noteq> []" by (simp add: state_of_def)
    from run_loop_filename_set [OF this, of d ts' v1] Continue show ?thesis
      by (simp add: loop_def run_loop_append state_of_def)
  qed
next
  show "filename (create_filename g s) \<noteq> []" by simp
qed

theorem filename_derived_once_witness:
  "filename (create_filename (fix_at 1 1) (initial True None Map.empty)) = ''20241128_123456_wardriving.csv'' \<and>
   filename (state_of (loop_iter plain_ops data_tick \<lparr>count = 0, lastFsCheck = 0\<rparr>
      (initial True None Map.empty))) = ''20241128_123456_wardriving.csv'' \<and>
   filename (state_of (loop_iter plain_ops stale_tick \<lparr>count = 0, lastFsCheck = 0\<rparr>
      (initial True None Map.empty))) = [] \<and>
   filename (state_of (run_loop plain_ops [stale_tick, quiet_tick, stale_tick]
      \<lparr>count = 0, lastFsCheck = 0\<rparr> (initial True None Map.empty))) = [] \<and>
   filename (state_of (run_loop plain_ops ([stale_tick] @ data_tick # [early_fix_tick])
      \<lparr>count = 0, lastFsCheck = 0\<rparr> (initial True None Map.empty))) = ''20241128_123456_wardriving.csv'' \<and>
   filename (state_of (run_loop plain_ops [early_fix_tick, quiet_tick] \<lparr>count = 0, lastFsCheck = 0\<rparr>
      (create_filename (fix_at 1 1) (initial True None Map.empty)))) = ''20241128_123456_wardriving.csv'' \<and>
   filename (state_of (loop plain_ops ([data_tick] @ [early_fix_tick, quiet_tick])
      (initial True None Map.empty))) = ''20241128_123456_wardriving.csv''"
proof -
  let ?d = "plain_ops"
  let ?s = "initial True None Map.empty :: real wardriving"
  let ?v = "\<lparr>count = 0, lastFsCheck = 0\<rparr>"
  let ?s1 = "create_filename (fix_at 1 1) ?s"
  note th = filename_derived_once [where g = "fix_at 1 1" and s = ?s and d = ?d and t = data_tick
      and v = ?v and ts = "[stale_tick, quiet_tick, stale_tick]" and ?s0.0 = ?s]
  note th0 = filename_derived_once [where s = ?s and d = ?d and t = stale_tick and v = ?v]
  note th1 = filename_derived_once [where s = ?s1 and d = ?d and v = ?v
      and ts = "[early_fix_tick, quiet_tick]"]
  note th2 = filename_derived_once [where d = ?d and ?s0.0 = ?s and ts = "[data_tick]"
      and ts' = "[early_fix_tick, quiet_tick]"]
  have g: "1000 \<le> date_year (fix_at 1 1) \<and> date_year (fix_at 1 1) < 10000 \<and>
    date_month (fix_at 1 1) < 100 \<and> date_day (fix_at 1 1) < 100 \<and> time_hour (fix_at 1 1) < 100 \<and>
    time_minute (fix_at 1 1) < 100 \<and> time_second (fix_at 1 1) < 100"
    by (simp add: fix_at_def)
  have name: "filename ?s1 = ''20241128_123456_wardriving.csv''" by code_simp
  have name': "filename (create_filename (gps data_tick) s') = ''20241128_123456_wardriving.csv''"
    for s' :: "real wardriving"
  proof -
    have "timestamp (gps data_tick) = ''20241128_123456''" by code_simp
    then show ?thesis by simp
  qed
  have e: "filename ?s = []" by (simp add: initial_def)
  have ne: "filename ?s1 \<noteq> []" by (simp add: name)
  have due: "name_due data_tick ?v ?s" by code_simp
  have ndue: "\<not> name_due stale_tick ?v ?s" by code_simp
  have may: "\<forall>t\<in>set [stale_tick, quiet_tick, stale_tick]. \<not> may_name t"
  proof -
    have "\<not> may_name stale_tick" "\<not> may_name quiet_tick" by code_simp+
    then show ?thesis by simp
  qed
  have lp: "filename (state_of (loop ?d [data_tick] ?s)) = ''20241128_123456_wardriving.csv''"
    by code_simp
  from th [THEN conjunct1] g name
  have 1: "filename ?s1 = ''20241128_123456_wardriving.csv''" by simp
  from th [THEN conjunct2, THEN conjunct1] e due name'
  have 2: "filename (state_of (loop_iter ?d data_tick ?v ?s)) = ''20241128_123456_wardriving.csv''"
    by simp
  from th0 [THEN conjunct2, THEN conjunct1] e ndue
  have 3: "filename (state_of (loop_iter ?d stale_tick ?v ?s)) = []" by simp
  from th [THEN conjunct2, THEN conjunct2, THEN conjunct1] e may
  have 4: "filename (state_of (run_loop ?d [stale_tick, quiet_tick, stale_tick] ?v ?s)) = []"
    by simp
  have 5: "filename (state_of (run_loop ?d ([stale_tick] @ data_tick # [early_fix_tick]) ?v ?s)) =
      ''20241128_123456_wardriving.csv''"
  proof -
    have x: "exit_of (run_loop ?d [stale_tick] ?v ?s) = None" by code_simp
    then obtain v1 s1 where c: "run_loop ?d [stale_tick] ?v ?s = Continue v1 s1"
      by (cases "run_loop ?d [stale_tick] ?v ?s") (simp_all add: exit_of_def)
    have "filename (state_of (run_loop ?d [stale_tick] ?v ?s)) = []"
      "\<not> returnToMenu (state_of (run_loop ?d [stale_tick] ?v ?s))" by code_simp+
    with c have f: "filename s1 = []" and m: "\<not> returnToMenu s1" by (simp_all add: state_of_def)
    have "\<not> esc_top data_tick" "gps_available data_tick" "\<not> location_isUpdated (gps data_tick)"
      "CURRENT_YEAR \<le> date_year (gps data_tick)" "date_year (gps data_tick) < CURRENT_YEAR + 5"
      by code_simp+
    with m have n: "name_due data_tick v1 s1" by (simp add: name_due_def)
    from filename_derived_once [where d = ?d and ts = "[stale_tick]" and v = ?v and s = ?s
        and ?v1.0 = v1 and ?s1.0 = s1 and t = data_tick and ts' = "[early_fix_tick]",
        THEN conjunct2, THEN conjunct2, THEN conjunct2, THEN conjunct1] c f n name'
    show ?thesis by simp
  qed
  from th1 [THEN conjunct2, THEN conjunct2, THEN conjunct2, THEN conjunct2, THEN conjunct1] ne name
  have 6: "filename (state_of (run_loop ?d [early_fix_tick, quiet_tick] ?v ?s1)) =
      ''20241128_123456_wardriving.csv''" by simp
  from th2 [THEN conjunct2, THEN conjunct2, THEN conjunct2, THEN conjunct2, THEN conjunct2,
      THEN conjunct1] lp
  have 7: "filename (state_of (loop ?d ([data_tick] @ [early_fix_tick, quiet_tick]) ?s)) =
      ''20241128_123456_wardriving.csv''" by simp
  from 1 2 3 4 5 6 7 show ?thesis by blast
qed

text \<open>
  C1 as stated fails in three ways.  For 28 November 2024, 12:34:56 the name has a
  four-digit year and differs from the name with a two-digit year, also when \<^verbatim>\<open>loop\<close>
  derives it; a day and an hour of 255 are printed with three digits.  A session of
  seven rounds without serial data ends (GPS not found) without any name.  And after a
  round that captures the date and time of 28 November 2023 (\<^verbatim>\<open>date_time_updated\<close> is set,
  the year fails the test of \<^verbatim>\<open>loop\<close>, the name stays empty) the next round derives the
  name from its own date, of 2024, not from the first captured one.
\<close>

theorem filename_has_four_digit_year:
  "filename (create_filename (fix_at 1 1) (initial True None Map.empty)) = ''20241128_123456_wardriving.csv'' \<and>
   spec_filename (fix_at 1 1) = ''241128_123456_wardriving.csv'' \<and>
   filename (create_filename (fix_at 1 1) (initial True None Map.empty)) \<noteq> spec_filename (fix_at 1 1) \<and>
   filename (state_of (loop plain_ops [data_tick] (initial True None Map.empty))) =
     ''20241128_123456_wardriving.csv'' \<and>
   filename (create_filename ((fix_at 1 1)\<lparr>date_day := 255, time_hour := 255\<rparr>)
     (initial True None Map.empty)) = ''202411255_2553456_wardriving.csv'' \<and>
   filename (state_of (loop plain_ops (replicate 7 quiet_tick) (initial True None Map.empty))) = [] \<and>
   exit_of (loop plain_ops (replicate 7 quiet_tick) (initial True None Map.empty)) = Some GpsNotFound \<and>
   date_time_updated (state_of (loop plain_ops [stale_tick] (initial True None Map.empty))) \<and>
   timestamp (gps stale_tick) = ''20231128_123456'' \<and>
   filename (state_of (loop plain_ops [stale_tick] (initial True None Map.empty))) = [] \<and>
   filename (state_of (loop plain_ops [stale_tick, data_tick] (initial True None Map.empty))) =
     ''20241128_123456_wardriving.csv''"
  by code_simp

text \<open>
  C9, as the code has it.  In a round with an updated location and a non-empty scan,
  with the storage found and its log directory there or created, an empty file name
  is derived from the date of that round whatever its year is.  With an updated
  location and an empty scan, or without the storage or its directory, the name stays
  empty in that round.  The year is tested only in the branch for a location that is
  not updated, where a year outside the five from \<^verbatim>\<open>CURRENT_YEAR\<close> on leaves the name
  empty.
\<close>

theorem filename_without_year_check:
  "(\<not> esc_top t \<and> \<not> returnToMenu s \<and> filename s = [] \<and> gps_available t \<and>
    location_isUpdated (gps t) \<and> scan_amount t \<noteq> 0 \<and> getFsStorage_ok (file_call t) \<and>
    (fs_dir s \<or> mkdir_ok (file_call t)) \<longrightarrow>
      filename (state_of (loop_iter d t v s)) = filename (create_filename (gps t) s)) \<and>
   (filename s = [] \<and> location_isUpdated (gps t) \<and>
    \<not> (scan_amount t \<noteq> 0 \<and> getFsStorage_ok (file_call t) \<and>
       (fs_dir (snd (fs_check t v s)) \<or> mkdir_ok (file_call t))) \<longrightarrow>
      filename (state_of (loop_iter d t v s)) = []) \<and>
   (filename s = [] \<and> \<not> location_isUpdated (gps t) \<and>
    \<not> (CURRENT_YEAR \<le> date_year (gps t) \<and> date_year (gps t) < CURRENT_YEAR + 5) \<longrightarrow>
      filename (state_of (loop_iter d t v s)) = [])"
proof (intro conjI impI)
  assume h: "\<not> esc_top t \<and> \<not> returnToMenu s \<and> filename s = [] \<and> gps_available t \<and>
    location_isUpdated (gps t) \<and> scan_amount t \<noteq> 0 \<and> getFsStorage_ok (file_call t) \<and>
    (fs_dir s \<or> mkdir_ok (file_call t))"
  let ?s1 = "snd (fs_check t v s)"
  from fs_check_snd [of s t v] h have f: "filename ?s1 = []" by (simp add: session_fields_def)
  from h fs_dir_fs_check [of s t v] have d: "fs_dir ?s1 \<or> mkdir_ok (file_call t)" by blast
  from h f d show "filename (state_of (loop_iter d t v s)) = filename (create_filename (gps t) s)"
    by (simp add: loop_iter_filename on_gps_data_filename)
next
  assume h: "filename s = [] \<and> location_isUpdated (gps t) \<and>
    \<not> (scan_amount t \<noteq> 0 \<and> getFsStorage_ok (file_call t) \<and>
       (fs_dir (snd (fs_check t v s)) \<or> mkdir_ok (file_call t)))"
  let ?s1 = "snd (fs_check t v s)"
  from fs_check_snd [of s t v] h have f: "filename ?s1 = []" by (simp add: session_fields_def)
  from h f show "filename (state_of (loop_iter d t v s)) = []"
    by (auto simp add: loop_iter_filename on_gps_data_filename)
next
  assume h: "filename s = [] \<and> \<not> location_isUpdated (gps t) \<and>
    \<not> (CURRENT_YEAR \<le> date_year (gps t) \<and> date_year (gps t) < CURRENT_YEAR + 5)"
  let ?s1 = "snd (fs_check t v s)"
  from fs_check_snd [of s t v] h have f: "filename ?s1 = []" by (simp add: session_fields_def)
  from h f show "filename (state_of (loop_iter d t v s)) = []"
    by (auto simp add: loop_iter_filename on_gps_data_filename)
qed

theorem filename_without_year_check_witness:
  "filename (state_of (loop_iter plain_ops early_fix_tick \<lparr>count = 0, lastFsCheck = 0\<rparr>
      (initial True None Map.empty))) = ''20000000_123456_wardriving.csv'' \<and>
   date_year (gps early_fix_tick) = 2000 \<and> CURRENT_YEAR = 2024 \<and>
   filename (state_of (loop_iter plain_ops (early_fix_tick\<lparr>scan_amount := 0, scan_nets := []\<rparr>)
      \<lparr>count = 0, lastFsCheck = 0\<rparr> (initial True None Map.empty))) = [] \<and>
   filename (state_of (loop_iter plain_ops (early_fix_tick\<lparr>gps := (gps early_fix_tick)\<lparr>location_isUpdated := False\<rparr>\<rparr>)
      \<lparr>count = 0, lastFsCheck = 0\<rparr> (initial True None Map.empty))) = []"
proof -
  let ?d = "plain_ops"
  let ?s = "initial True None Map.empty :: real wardriving"
  let ?v = "\<lparr>count = 0, lastFsCheck = 0\<rparr>"
  let ?t0 = "early_fix_tick\<lparr>scan_amount := 0, scan_nets := []\<rparr>"
  let ?t' = "early_fix_tick\<lparr>gps := (gps early_fix_tick)\<lparr>location_isUpdated := False\<rparr>\<rparr>"
  have h1: "\<not> esc_top early_fix_tick \<and> \<not> returnToMenu ?s \<and> filename ?s = [] \<and>
    gps_available early_fix_tick \<and> location_isUpdated (gps early_fix_tick) \<and>
    scan_amount early_fix_tick \<noteq> 0 \<and> getFsStorage_ok (file_call early_fix_tick) \<and>
    (fs_dir ?s \<or> mkdir_ok (file_call early_fix_tick))"
    by (simp add: early_fix_tick_def quiet_tick_def initial_def storage_fine_def fix_at_def)
  have h0: "filename ?s = [] \<and> location_isUpdated (gps ?t0) \<and>
    \<not> (scan_amount ?t0 \<noteq> 0 \<and> getFsStorage_ok (file_call ?t0) \<and>
       (fs_dir (snd (fs_check ?t0 ?v ?s)) \<or> mkdir_ok (file_call ?t0)))"
    by (simp add: early_fix_tick_def quiet_tick_def initial_def fix_at_def)
  have h2: "filename ?s = [] \<and> \<not> location_isUpdated (gps ?t') \<and>
    \<not> (CURRENT_YEAR \<le> date_year (gps ?t') \<and> date_year (gps ?t') < CURRENT_YEAR + 5)"
    by (simp add: early_fix_tick_def quiet_tick_def initial_def fix_at_def CURRENT_YEAR_def)
  have n: "filename (create_filename (gps early_fix_tick) ?s) = ''20000000_123456_wardriving.csv''"
    by code_simp
  have y: "date_year (gps early_fix_tick) = 2000" "CURRENT_YEAR = 2024"
    by (simp_all add: early_fix_tick_def quiet_tick_def fix_at_def CURRENT_YEAR_def)
  from filename_without_year_check [where t = early_fix_tick and s = ?s and d = ?d and v = ?v,
      THEN conjunct1] h1 n
  have 1: "filename (state_of (loop_iter ?d early_fix_tick ?v ?s)) = ''20000000_123456_wardriving.csv''"
    by simp
  from filename_without_year_check [where t = ?t0 and s = ?s and d = ?d and v = ?v,
      THEN conjunct2, THEN conjunct1] h0
  have 0: "filename (state_of (loop_iter ?d ?t0 ?v ?s)) = []" by simp
  from filename_without_year_check [where t = ?t' and s = ?s and d = ?d and v = ?v,
      THEN conjunct2, THEN conjunct2] h2
  have 2: "filename (state_of (loop_iter ?d ?t' ?v ?s)) = []" by simp
  from 1 0 2 y show ?thesis by simp
qed

text \<open>
  C9 as stated fails: a first updated location that arrives before any date or time
  has been captured does not derive the name when the scan of that round is empty.
  The name stays empty, and the next round, with a location that is not updated,
  derives it in the branch of \<^verbatim>\<open>loop\<close> that tests the year: with the year 2024 the name
  is derived there, with the year 2023 it is not.
\<close>

theorem empty_scan_defers_filename:
  "\<not> date_time_updated (initial True None Map.empty :: real wardriving) \<and>
   location_isUpdated (gps (early_fix_tick\<lparr>scan_amount := 0, scan_nets := []\<rparr>)) \<and>
   exit_of (loop plain_ops [early_fix_tick\<lparr>scan_amount := 0, scan_nets := []\<rparr>]
     (initial True None Map.empty)) = None \<and>
   filename (state_of (loop plain_ops [early_fix_tick\<lparr>scan_amount := 0, scan_nets := []\<rparr>]
     (initial True None Map.empty))) = [] \<and>
   \<not> date_time_updated (state_of (loop plain_ops [early_fix_tick\<lparr>scan_amount := 0, scan_nets := []\<rparr>]
     (initial True None Map.empty))) \<and>
   filename (state_of (loop plain_ops [early_fix_tick\<lparr>scan_amount := 0, scan_nets := []\<rparr>, data_tick]
     (initial True None Map.empty))) = ''20241128_123456_wardriving.csv'' \<and>
   filename (state_of (loop plain_ops [early_fix_tick\<lparr>scan_amount := 0, scan_nets := []\<rparr>, stale_tick]
     (initial True None Map.empty))) = []"
  by code_simp

subsection \<open>Recording an address\<close>

subsection \<open>A record whose index append fails\<close>



lemma isMacInCache_cong: "macAddressCache a = macAddressCache b \<Longrightarrow> isMacInCache m a = isMacInCache m b"
  by (simp add: isMacInCache_def)



subsection \<open>Example sessions\<close>

lemma row_lost_new: "entry_new (initial True (Some []) Map.empty :: real wardriving) (net1, entry_fine\<lparr>print_ok := False\<rparr>)"
  by code_simp

lemma row_lost_writable:
  "index_writable storage_fine (snd (index_ready storage_fine (initial True (Some []) Map.empty :: real wardriving)))"
  by code_simp

lemma key_net1: "parse_groups (BSSIDstr net1) = [170, 187, 204, 221, 238, 1]"
  by code_simp

lemma row_lost_fields:
  "fs_index row_lost = Some [170, 187, 204, 221, 238, 1]"
  "fs_logs row_lost = Map.empty"
  "wifiNetworkCount row_lost = 0"
proof -
  let ?s = "initial True (Some []) Map.empty :: real wardriving"
  let ?ne = "(net1, entry_fine\<lparr>print_ok := False\<rparr>)"
  note f = append_entry_new_fields [OF row_lost_new, of "fix_at 1 1", folded row_lost_def]
  have w: "index_writable (append_call (snd ?ne)) (snd (index_ready (lookup_call (snd ?ne)) ?s))"
    using row_lost_writable by (simp add: entry_fine_def)
  from w have o: "fst (index_ready (append_call (snd ?ne)) (snd (index_ready (lookup_call (snd ?ne)) ?s))) \<and>
      getFsStorage_ok (append_call (snd ?ne)) \<and> open_ok (append_call (snd ?ne))"
    "BLOCK_SIZE \<le> write_len (append_call (snd ?ne))"
    by (simp_all add: index_writable_def)
  have "index_bytes row_lost = [170, 187, 204, 221, 238, 1]"
    using f(4) o key_net1 by (simp add: index_bytes_def initial_def BLOCK_SIZE_def min_def)
  then show "fs_index row_lost = Some [170, 187, 204, 221, 238, 1]"
    by (cases "fs_index row_lost") (simp_all add: index_bytes_def)
  show "fs_logs row_lost = Map.empty"
    using f(3) by (simp add: entry_fine_def initial_def)
  show "wifiNetworkCount row_lost = 0"
    using f(2) by (simp add: entry_fine_def initial_def)
qed

lemma next_session_eq: "next_session = initial True (Some [170, 187, 204, 221, 238, 1]) Map.empty"
  by (simp add: next_session_def row_lost_fields)


subsection \<open>The filled cache\<close>











lemma next_session_index: "index_bytes next_session = [170, 187, 204, 221, 238, 1]"
  by (simp add: next_session_eq index_bytes_def initial_def)

lemma net1_in_next_session: "index_holds (BSSIDstr net1) (index_bytes next_session)"
  unfolding next_session_index by code_simp

lemma next_session_unreadable: "\<not> index_opens open_fails s"
  by (simp add: index_opens_def open_fails_def)

lemma next_session_entry_new:
  "entry_new next_session (net1, entry_fine\<lparr>lookup_call := open_fails\<rparr>)"
proof -
  have "isValidMacString (BSSIDstr net1)" by code_simp
  moreover have "SSID net1 \<noteq> []" by (simp add: net1_def)
  moreover have "\<not> isMacInCache (BSSIDstr net1) next_session"
    by (simp add: next_session_eq isMacInCache_def initial_def)
  ultimately show ?thesis
    by (simp add: entry_new_def next_session_unreadable)
qed

lemma next_session_writable:
  "index_writable storage_fine (snd (index_ready open_fails next_session))"
  unfolding next_session_eq by code_simp

lemma read_fails_holds: "\<not> read_holds read_fails mac bs"
  by (cases "macStringToBytes mac") (simp_all add: read_holds_def records_read_def read_fails_def)



text \<open>
  C3 as stated fails in both directions.  An address that is in neither tier gets no
  record when the append fails; and an address that the index holds gets a second
  record when the lookup cannot open the index and the append that follows can.
\<close>

theorem append_not_iff_absent:
  "\<not> isMacInCache (BSSIDstr net1) (initial True (Some []) Map.empty :: real wardriving) \<and>
   \<not> index_holds (BSSIDstr net1) (index_bytes (initial True (Some []) Map.empty :: real wardriving)) \<and>
   index_bytes (append_entry (fix_at 1 1) (initial True (Some []) Map.empty :: real wardriving)
      (net1, entry_fine\<lparr>append_call := open_fails\<rparr>)) = [] \<and>
   index_holds (BSSIDstr net1) (index_bytes next_session) \<and>
   index_bytes (append_entry (fix_at 2 2) next_session (net1, entry_fine\<lparr>lookup_call := open_fails\<rparr>)) =
     index_bytes next_session @ [170, 187, 204, 221, 238, 1]"
proof -
  have 1: "\<not> isMacInCache (BSSIDstr net1) (initial True (Some []) Map.empty :: real wardriving) \<and>
   \<not> index_holds (BSSIDstr net1) (index_bytes (initial True (Some []) Map.empty :: real wardriving)) \<and>
   index_bytes (append_entry (fix_at 1 1) (initial True (Some []) Map.empty :: real wardriving)
      (net1, entry_fine\<lparr>append_call := open_fails\<rparr>)) = []"
    by code_simp
  let ?ne = "(net1, entry_fine\<lparr>lookup_call := open_fails\<rparr>)"
  have w: "index_writable (append_call (snd ?ne)) (snd (index_ready (lookup_call (snd ?ne)) next_session))"
    using next_session_writable by (simp add: entry_fine_def)
  from append_entry_new_fields(4) [OF next_session_entry_new, of "fix_at 2 2"] w
  have 2: "index_bytes (append_entry (fix_at 2 2) next_session ?ne) =
      index_bytes next_session @ [170, 187, 204, 221, 238, 1]"
    by (simp add: index_writable_def key_net1 BLOCK_SIZE_def min_def)
  from 1 net1_in_next_session 2 show ?thesis by simp
qed

theorem index_append_only_witness:
  "index_bytes (append_entry (fix_at 1 1) (initial True (Some []) Map.empty :: real wardriving) (net1, entry_fine)) =
     [170, 187, 204, 221, 238, 1] \<and>
   fst (isMacInIndex storage_fine (BSSIDstr net1) next_session) \<and>
   \<not> fst (isMacInIndex read_fails (BSSIDstr net1) next_session) \<and>
   prefix [170, 187, 204, 221, 238, 1]
     (index_bytes (state_of (run_loop plain_ops [early_fix_tick, quiet_tick]
        \<lparr>count = 0, lastFsCheck = 0\<rparr> next_session)))"
proof -
  let ?s = "initial True (Some []) Map.empty :: real wardriving"
  have n: "entry_new ?s (net1, entry_fine)" by code_simp
  have w: "index_writable (append_call (snd (net1, entry_fine)))
      (snd (index_ready (lookup_call (snd (net1, entry_fine))) ?s))"
    using row_lost_writable by (simp add: entry_fine_def)
  have i: "index_bytes ?s = []" by (simp add: index_bytes_def initial_def)
  have r: "index_readable storage_fine next_session"
    unfolding next_session_eq by code_simp
  from index_append_only [where s = ?s and ne = "(net1, entry_fine)" and g = "fix_at 1 1",
      THEN conjunct1] n w i
  have 1: "index_bytes (append_entry (fix_at 1 1) ?s (net1, entry_fine)) = [170, 187, 204, 221, 238, 1]"
    by (simp add: key_net1)
  from index_append_only [where s = next_session and f = storage_fine and mac = "BSSIDstr net1",
      THEN conjunct2, THEN conjunct2, THEN conjunct1] r net1_in_next_session
  have 2: "fst (isMacInIndex storage_fine (BSSIDstr net1) next_session)" by simp
  have "\<not> read_holds read_fails (BSSIDstr net1) (index_bytes next_session)"
    by (rule read_fails_holds)
  with index_append_only [where s = next_session and f = read_fails and mac = "BSSIDstr net1",
      THEN conjunct2, THEN conjunct1]
  have 4: "\<not> fst (isMacInIndex read_fails (BSSIDstr net1) next_session)" by simp
  from index_append_only [where s = next_session and d = "plain_ops"
      and ts = "[early_fix_tick, quiet_tick]" and v = "\<lparr>count = 0, lastFsCheck = 0\<rparr>",
      THEN conjunct2, THEN conjunct2, THEN conjunct2, THEN conjunct2]
  have 3: "prefix [170, 187, 204, 221, 238, 1]
     (index_bytes (state_of (run_loop plain_ops [early_fix_tick, quiet_tick]
        \<lparr>count = 0, lastFsCheck = 0\<rparr> next_session)))"
    by (simp add: next_session_index)
  from 1 2 4 3 show ?thesis by simp
qed

subsection \<open>A recorded address whose row is not written\<close>





end
